theory Spec2Isabelle
  imports Main "HOL-Library.Word" "HOL-Library.Sublist" "HOL-Library.Multiset"
begin

section \<open>JavaScript strings\<close>

text \<open>
  A JavaScript string is a sequence of 16-bit UTF-16 code units; \<open>length\<close>, indexing,
  \<open>split\<close>, \<open>includes\<close> and the regular expressions of the sources (none has the
  \<open>u\<close> flag) all work on code units. A Hangul syllable (U+AC00 .. U+D7A3) is one code unit.
\<close>

type_synonym cu = "16 word"
type_synonym jsstring = "cu list"

text \<open>An ASCII literal as a JavaScript string.\<close>

definition js :: "string \<Rightarrow> jsstring" where
  "js s = map (\<lambda>c. of_nat (of_char c)) s"

definition LF :: cu where "LF = 0x0A"
definition HYPHEN :: cu where "HYPHEN = 0x2D"
definition PIPE :: cu where "PIPE = 0x7C"
definition SLASH :: cu where "SLASH = 0x2F"

text \<open>
  The class \<open>\s\<close> of a regular expression, which is also the set \<open>trim()\<close> strips:
  WhiteSpace and LineTerminator of ECMAScript.
\<close>

definition isSpace :: "cu \<Rightarrow> bool" where
  "isSpace c \<longleftrightarrow>
     (0x09 \<le> c \<and> c \<le> 0x0D) \<or> c = 0x20 \<or> c = 0xA0 \<or> c = 0x1680 \<or>
     (0x2000 \<le> c \<and> c \<le> 0x200A) \<or> c = 0x2028 \<or> c = 0x2029 \<or> c = 0x202F \<or>
     c = 0x205F \<or> c = 0x3000 \<or> c = 0xFEFF"

text \<open>The class \<open>\w\<close> without the \<open>u\<close> and \<open>i\<close> flags: \<open>[A-Za-z0-9_]\<close>.\<close>

definition isUpper :: "cu \<Rightarrow> bool" where
  "isUpper c \<longleftrightarrow> 0x41 \<le> c \<and> c \<le> 0x5A"

definition isLower :: "cu \<Rightarrow> bool" where
  "isLower c \<longleftrightarrow> 0x61 \<le> c \<and> c \<le> 0x7A"

definition isDigit :: "cu \<Rightarrow> bool" where
  "isDigit c \<longleftrightarrow> 0x30 \<le> c \<and> c \<le> 0x39"

definition isLetter :: "cu \<Rightarrow> bool" where
  "isLetter c \<longleftrightarrow> isLower c \<or> isUpper c"

definition isAlnum :: "cu \<Rightarrow> bool" where
  "isAlnum c \<longleftrightarrow> isLetter c \<or> isDigit c"

definition isWord :: "cu \<Rightarrow> bool" where
  "isWord c \<longleftrightarrow> isAlnum c \<or> c = 0x5F"

definition isHangul :: "cu \<Rightarrow> bool" where
  "isHangul c \<longleftrightarrow> 0xAC00 \<le> c \<and> c \<le> 0xD7A3"

text \<open>
  \<open>String.prototype.toLowerCase\<close> is a function of the host: it follows the case mappings
  of the Unicode standard, special casing included, so it acts on every cased code unit and
  its result can be longer than its argument. The functions below that call it take it as
  their first argument, named \<open>toLowerCase\<close>, and the general theorems about them hold
  for every function in that place (the one on the empty query, for every function that
  maps the empty string to the empty string).

  The examples are evaluated with \<open>toLowerCaseLatin1\<close>, which is what \<open>toLowerCase\<close>
  does on the strings they use, the strings whose code units are below U+0100 or Hangul
  syllables: \<open>A\<close> .. \<open>Z\<close>, U+00C0 .. U+00D6 and U+00D8 .. U+00DE go to the code unit
  \<open>0x20\<close> above, every other code unit is kept.
\<close>

definition isUpperLatin1 :: "cu \<Rightarrow> bool" where
  "isUpperLatin1 c \<longleftrightarrow> isUpper c \<or> (0xC0 \<le> c \<and> c \<le> 0xD6) \<or> (0xD8 \<le> c \<and> c \<le> 0xDE)"

definition toLowerCaseLatin1 :: "jsstring \<Rightarrow> jsstring" where
  "toLowerCaseLatin1 s = map (\<lambda>c. if isUpperLatin1 c then c + 0x20 else c) s"

text \<open>\<open>s.trim()\<close>.\<close>

definition trim :: "jsstring \<Rightarrow> jsstring" where
  "trim s = rev (dropWhile isSpace (rev (dropWhile isSpace s)))"

text \<open>\<open>s.split(sep)\<close> for a one-unit separator: always at least one piece.\<close>

fun splitOn :: "cu \<Rightarrow> jsstring \<Rightarrow> jsstring list" where
  "splitOn sep [] = [[]]"
| "splitOn sep (c # cs) =
     (if c = sep then [] # splitOn sep cs
      else (case splitOn sep cs of
              [] \<Rightarrow> [[c]]
            | p # ps \<Rightarrow> (c # p) # ps))"

text \<open>\<open>xs.join(sep)\<close> for a one-unit separator.\<close>

fun joinWith :: "cu \<Rightarrow> jsstring list \<Rightarrow> jsstring" where
  "joinWith sep [] = []"
| "joinWith sep [x] = x"
| "joinWith sep (x # y # ys) = x @ sep # joinWith sep (y # ys)"

text \<open>\<open>s.includes(q)\<close>: \<open>q\<close> occurs in \<open>s\<close> as a contiguous run.\<close>

fun includes_str :: "jsstring \<Rightarrow> jsstring \<Rightarrow> bool" where
  "includes_str [] q = (q = [])"
| "includes_str (c # cs) q = (prefix q (c # cs) \<or> includes_str cs q)"

text \<open>\<open>xs.slice(a, b)\<close> for \<open>0 \<le> a\<close>.\<close>

definition slice_arr :: "'a list \<Rightarrow> nat \<Rightarrow> nat \<Rightarrow> 'a list" where
  "slice_arr xs a b = take (b - a) (drop a xs)"

section \<open>Regular expressions with capture groups\<close>

text \<open>
  The regular expressions of the sources are run by a backtracking matcher that follows
  the ECMAScript semantics: a greedy quantifier tries one more iteration before it
  tries to stop, an alternative tries its left branch first, and the first success in that
  order is the match. \<open>matches\<close> returns every way to match, in the order backtracking
  would try them; the match is the head of the list. The heading pattern and the link
  patterns are run by it directly; the character-class patterns of \<open>generateAnchor\<close> and
  \<open>extractKeywords\<close> are modelled by scanners, which are proved to compute what the
  matcher computes.
\<close>

datatype regex =
    Eps
  | Cls "cu \<Rightarrow> bool"
  | Cat regex regex
  | Alt regex regex
  | Opt regex
  | Star regex
  | Grp nat regex
  | Bol
  | Eol

type_synonym captures = "nat \<rightharpoonup> jsstring"
type_synonym mstate = "nat \<times> captures"

function matches :: "jsstring \<Rightarrow> regex \<Rightarrow> mstate \<Rightarrow> mstate list" where
  "matches inp Eps st = [st]"
| "matches inp (Cls p) (i, cp) =
     (if i < length inp \<and> p (inp ! i) then [(Suc i, cp)] else [])"
| "matches inp (Cat a b) st = concat (map (matches inp b) (matches inp a st))"
| "matches inp (Alt a b) st = matches inp a st @ matches inp b st"
| "matches inp (Opt a) (i, cp) =
     filter (\<lambda>(j, cq). i < j) (matches inp a (i, cp)) @ [(i, cp)]"
| "matches inp (Star a) (i, cp) =
     concat (map (\<lambda>(j, cq). if i < j \<and> j \<le> length inp
                              then matches inp (Star a) (j, cq) else [])
                 (matches inp a (i, cp))) @ [(i, cp)]"
| "matches inp (Grp n a) (i, cp) =
     map (\<lambda>(j, cq). (j, cq(n \<mapsto> slice_arr inp i j))) (matches inp a (i, cp))"
| "matches inp Bol (i, cp) = (if i = 0 then [(i, cp)] else [])"
| "matches inp Eol (i, cp) = (if i = length inp then [(i, cp)] else [])"
  by pat_completeness auto
termination
  by (relation "measures [\<lambda>(inp, r, st). size r, \<lambda>(inp, r, (i, cp)). length inp - i]") auto

text \<open>The equation of \<open>Star\<close> unfolds without end: the equations are used one at a time.\<close>

declare matches.simps [simp del]

text \<open>\<open>r+\<close> and \<open>r{1,n}\<close> (both greedy).\<close>

definition Plus :: "regex \<Rightarrow> regex" where
  "Plus r = Cat r (Star r)"

fun UpTo :: "nat \<Rightarrow> regex \<Rightarrow> regex" where
  "UpTo 0 r = Eps"
| "UpTo (Suc n) r = Opt (Cat r (UpTo n r))"

text \<open>
  \<open>re.exec(s)\<close> with \<open>lastIndex = from\<close>: the first start position at or after \<open>from\<close>
  where the pattern matches, with the end of the match and the captures.
\<close>

fun firstMatch :: "regex \<Rightarrow> jsstring \<Rightarrow> nat list \<Rightarrow> (nat \<times> nat \<times> captures) option" where
  "firstMatch r inp [] = None"
| "firstMatch r inp (s # ss) =
     (case matches inp r (s, Map.empty) of
        [] \<Rightarrow> firstMatch r inp ss
      | (e, cp) # _ \<Rightarrow> Some (s, e, cp))"

definition exec :: "regex \<Rightarrow> jsstring \<Rightarrow> nat \<Rightarrow> (nat \<times> nat \<times> captures) option" where
  "exec r inp from = firstMatch r inp [from ..< Suc (length inp)]"

section \<open>MarkdownParser.extractSections\<close>

text \<open>
  The heading pattern \<^verbatim>\<open>/^(#{1,6})\s+(.+)$/\<close>. The dot matches every code unit but the
  line terminators; the pattern has no \<open>m\<close> flag, so \<open>^\<close> and \<open>$\<close> are the ends of the line.
\<close>

definition isHash :: "cu \<Rightarrow> bool" where
  "isHash c \<longleftrightarrow> c = 0x23"

definition isDot :: "cu \<Rightarrow> bool" where
  "isDot c \<longleftrightarrow> c \<noteq> 0x0A \<and> c \<noteq> 0x0D \<and> c \<noteq> 0x2028 \<and> c \<noteq> 0x2029"

definition headingPattern :: regex where
  "headingPattern =
     Cat Bol
    (Cat (Grp 1 (Cat (Cls isHash) (UpTo 5 (Cls isHash))))
    (Cat (Plus (Cls isSpace))
    (Cat (Grp 2 (Plus (Cls isDot)))
         Eol)))"

text \<open>\<open>line.match(headingPattern)\<close>: the two groups, or \<open>None\<close> for \<open>null\<close>.\<close>

definition headingMatch :: "jsstring \<Rightarrow> (jsstring \<times> jsstring) option" where
  "headingMatch line =
     (case exec headingPattern line 0 of
        None \<Rightarrow> None
      | Some (s, e, cp) \<Rightarrow>
          (case (cp 1, cp 2) of
             (Some g1, Some g2) \<Rightarrow> Some (g1, g2)
           | _ \<Rightarrow> None))"

text \<open>The records \<open>extractSections\<close> returns, and its variable \<open>currentSection\<close>.\<close>

record md_section =
  level :: nat
  title :: jsstring
  content :: jsstring
  lineStart :: int
  lineEnd :: int

record currentSection =
  cur_level :: nat
  cur_title :: jsstring
  cur_content :: "jsstring list"
  cur_lineStart :: int

type_synonym sections_state = "md_section list \<times> currentSection option"

text \<open>Closing the section in progress at line \<open>e\<close>: the record that is pushed.\<close>

definition closeSection :: "currentSection \<Rightarrow> int \<Rightarrow> md_section" where
  "closeSection c e =
     \<lparr> level = cur_level c, title = cur_title c,
       content = joinWith LF (cur_content c),
       lineStart = cur_lineStart c, lineEnd = e \<rparr>"

text \<open>The body of the \<open>for\<close> loop at index \<open>i\<close>.\<close>

definition sectionsStep :: "nat \<Rightarrow> jsstring \<Rightarrow> sections_state \<Rightarrow> sections_state" where
  "sectionsStep i line st =
     (case st of (secs, cur) \<Rightarrow>
        (case headingMatch line of
           Some (g1, g2) \<Rightarrow>
             ((case cur of
                 Some c \<Rightarrow> secs @ [closeSection c (int i - 1)]
               | None \<Rightarrow> secs),
              Some \<lparr> cur_level = length g1, cur_title = trim g2,
                     cur_content = [], cur_lineStart = int i \<rparr>)
         | None \<Rightarrow>
             (case cur of
                Some c \<Rightarrow> (secs, Some (c\<lparr> cur_content := cur_content c @ [line] \<rparr>))
              | None \<Rightarrow> (secs, None))))"

fun sectionsLoop :: "jsstring list \<Rightarrow> nat \<Rightarrow> sections_state \<Rightarrow> sections_state" where
  "sectionsLoop [] i st = st"
| "sectionsLoop (line # rest) i st = sectionsLoop rest (Suc i) (sectionsStep i line st)"

text \<open>The code after the loop: the last section is closed at the last line.\<close>

definition sectionsFinish :: "nat \<Rightarrow> sections_state \<Rightarrow> md_section list" where
  "sectionsFinish n st =
     (case st of (secs, cur) \<Rightarrow>
        (case cur of
           Some c \<Rightarrow> secs @ [closeSection c (int n - 1)]
         | None \<Rightarrow> secs))"

definition extractSections :: "jsstring \<Rightarrow> md_section list" where
  "extractSections markdown =
     (let lines = splitOn LF markdown
      in sectionsFinish (length lines) (sectionsLoop lines 0 ([], None)))"

subsection \<open>Line coordinates of the sections\<close>

definition notHeading :: "jsstring \<Rightarrow> bool" where
  "notHeading l \<longleftrightarrow> headingMatch l = None"

text \<open>The index of the first heading line (the number of lines if there is none).\<close>

definition firstHeadingIndex :: "jsstring list \<Rightarrow> nat" where
  "firstHeadingIndex lines = length (takeWhile notHeading lines)"

text \<open>
  \<open>tiles a secs b\<close>: the line ranges of \<open>secs\<close>, in order, are non-empty, start at \<open>a\<close>,
  follow each other without gap or overlap, and end at \<open>b\<close>.
\<close>

fun tiles :: "int \<Rightarrow> md_section list \<Rightarrow> int \<Rightarrow> bool" where
  "tiles a [] b = (b = a - 1)"
| "tiles a (s # ss) b = (lineStart s = a \<and> a \<le> lineEnd s \<and> tiles (lineEnd s + 1) ss b)"

text \<open>The lines of a section: those from \<open>lineStart\<close> to \<open>lineEnd\<close>, both included.\<close>

definition sectionLines :: "jsstring list \<Rightarrow> md_section \<Rightarrow> jsstring list" where
  "sectionLines lines s = slice_arr lines (nat (lineStart s)) (nat (lineEnd s) + 1)"

text \<open>
  A section agrees with the lines it covers: the line at \<open>lineStart\<close> is the heading its
  level and title come from, and its content is the following lines up to \<open>lineEnd\<close>,
  none of them a heading, joined by line feeds.
\<close>

definition sectionOk :: "jsstring list \<Rightarrow> md_section \<Rightarrow> bool" where
  "sectionOk lines s \<longleftrightarrow>
     0 \<le> lineStart s \<and> lineStart s \<le> lineEnd s \<and> lineEnd s < int (length lines) \<and>
     map_option (\<lambda>(g1, g2). (length g1, trim g2)) (headingMatch (lines ! nat (lineStart s)))
       = Some (level s, title s) \<and>
     content s = joinWith LF (slice_arr lines (nat (lineStart s) + 1) (nat (lineEnd s) + 1)) \<and>
     (\<forall>l \<in> set (slice_arr lines (nat (lineStart s) + 1) (nat (lineEnd s) + 1)). notHeading l)"

text \<open>The loop invariant of \<open>extractSections\<close> after the lines \<open>pre\<close>.\<close>

definition sectionsInv :: "jsstring list \<Rightarrow> sections_state \<Rightarrow> bool" where
  "sectionsInv pre st \<longleftrightarrow>
     tiles (int (firstHeadingIndex pre)) (sectionsFinish (length pre) st)
           (int (length pre) - 1) \<and>
     (\<forall>s \<in> set (sectionsFinish (length pre) st). sectionOk pre s) \<and>
     (case snd st of
        None \<Rightarrow> fst st = []
      | Some c \<Rightarrow> cur_content c = slice_arr pre (nat (cur_lineStart c) + 1) (length pre))"

section \<open>DocumentIndexer: parsing one document\<close>

text \<open>
  \<open>s.replace(/[c]+/g, r)\<close> for a character class \<open>c\<close>: every maximal run of code units
  of the class is replaced by \<open>r\<close>.
\<close>

function replaceRuns :: "(cu \<Rightarrow> bool) \<Rightarrow> jsstring \<Rightarrow> jsstring \<Rightarrow> jsstring" where
  "replaceRuns p r [] = []"
| "replaceRuns p r (c # cs) =
     (if p c then r @ replaceRuns p r (dropWhile p cs) else c # replaceRuns p r cs)"
  by pat_completeness auto
termination
  by (relation "measure (\<lambda>(p, r, s). length s)")
     (auto simp: length_dropWhile_le less_Suc_eq_le)

text \<open>
  \<open>generateAnchor\<close>: \<^verbatim>\<open>title.toLowerCase().replace(/[^\w\s-]/g, '')\<close>
  \<^verbatim>\<open>.replace(/\s+/g, '-').replace(/-+/g, '-').trim()\<close>. Replacing every match of a
  one-unit class by the empty string keeps the other code units.
\<close>

definition isHyphen :: "cu \<Rightarrow> bool" where
  "isHyphen c \<longleftrightarrow> c = HYPHEN"

definition anchorKeeps :: "cu \<Rightarrow> bool" where
  "anchorKeeps c \<longleftrightarrow> isWord c \<or> isSpace c \<or> c = HYPHEN"

definition generateAnchor :: "(jsstring \<Rightarrow> jsstring) \<Rightarrow> jsstring \<Rightarrow> jsstring" where
  "generateAnchor toLowerCase t =
     trim (replaceRuns isHyphen [HYPHEN]
            (replaceRuns isSpace [HYPHEN]
              (filter anchorKeeps (toLowerCase t))))"

record DocumentSection =
  ds_level :: nat
  ds_title :: jsstring
  ds_content :: jsstring
  ds_anchor :: jsstring

text \<open>The variable \<open>currentSection\<close> of \<open>parseMarkdown\<close>, and the record pushed for it.\<close>

record pm_current =
  pm_level :: nat
  pm_title :: jsstring
  pm_content :: "jsstring list"

definition pushSection :: "(jsstring \<Rightarrow> jsstring) \<Rightarrow> pm_current \<Rightarrow> DocumentSection" where
  "pushSection toLowerCase c =
     \<lparr> ds_level = pm_level c, ds_title = pm_title c,
       ds_content = joinWith LF (pm_content c),
       ds_anchor = generateAnchor toLowerCase (pm_title c) \<rparr>"

text \<open>The state of the loop: \<open>sections\<close>, \<open>title\<close> and \<open>currentSection\<close>.\<close>

type_synonym parse_state = "DocumentSection list \<times> jsstring \<times> pm_current option"

definition parseStep :: "(jsstring \<Rightarrow> jsstring) \<Rightarrow> jsstring \<Rightarrow> parse_state \<Rightarrow> parse_state" where
  "parseStep toLowerCase line st =
     (case st of (secs, ttl, cur) \<Rightarrow>
        (case headingMatch line of
           Some (g1, g2) \<Rightarrow>
             (let secs' = (case cur of Some c \<Rightarrow> secs @ [pushSection toLowerCase c] | None \<Rightarrow> secs);
                  headingText = trim g2;
                  ttl' = (if ttl = [] then headingText else ttl)
              in (secs', ttl',
                  Some \<lparr> pm_level = length g1, pm_title = headingText, pm_content = [] \<rparr>))
         | None \<Rightarrow>
             (case cur of
                Some c \<Rightarrow> (secs, ttl, Some (c\<lparr> pm_content := pm_content c @ [line] \<rparr>))
              | None \<Rightarrow> (secs, ttl, None))))"

record parsed =
  parsed_title :: jsstring
  parsed_sections :: "DocumentSection list"

definition parseFinish :: "(jsstring \<Rightarrow> jsstring) \<Rightarrow> parse_state \<Rightarrow> parsed" where
  "parseFinish toLowerCase st =
     (case st of (secs, ttl, cur) \<Rightarrow>
        \<lparr> parsed_title = (if ttl = [] then js ''Untitled'' else ttl),
          parsed_sections = (case cur of Some c \<Rightarrow> secs @ [pushSection toLowerCase c] | None \<Rightarrow> secs) \<rparr>)"

definition parseMarkdown :: "(jsstring \<Rightarrow> jsstring) \<Rightarrow> jsstring \<Rightarrow> parsed" where
  "parseMarkdown toLowerCase markdown =
     parseFinish toLowerCase (fold (parseStep toLowerCase) (splitOn LF markdown) ([], [], None))"

text \<open>
  The simulation between the two section splitters: same closed sections, same section
  in progress.
\<close>

definition sameSection :: "(jsstring \<Rightarrow> jsstring) \<Rightarrow> md_section \<Rightarrow> DocumentSection \<Rightarrow> bool" where
  "sameSection toLowerCase s d \<longleftrightarrow>
     level s = ds_level d \<and> title s = ds_title d \<and> content s = ds_content d \<and>
     ds_anchor d = generateAnchor toLowerCase (title s)"

definition sameState :: "(jsstring \<Rightarrow> jsstring) \<Rightarrow> sections_state \<Rightarrow> parse_state \<Rightarrow> bool" where
  "sameState toLowerCase st pst \<longleftrightarrow>
     (case (st, pst) of ((secs, cur), (dsecs, ttl, dcur)) \<Rightarrow>
        list_all2 (sameSection toLowerCase) secs dsecs \<and>
        (case (cur, dcur) of
           (None, None) \<Rightarrow> True
         | (Some c, Some d) \<Rightarrow>
             cur_level c = pm_level d \<and> cur_title c = pm_title d \<and> cur_content c = pm_content d
         | _ \<Rightarrow> False))"

subsection \<open>The anchor as the specification words it\<close>

text \<open>Removing the hyphens at the two ends of a string.\<close>

definition trimHyphens :: "jsstring \<Rightarrow> jsstring" where
  "trimHyphens s = rev (dropWhile isHyphen (rev (dropWhile isHyphen s)))"

text \<open>
  The anchor of the specification: the title lowercased, the characters that are not
  word characters, white space or hyphens removed, white-space runs collapsed to single
  hyphens, leading and trailing hyphens trimmed.
\<close>

definition anchorAsClaimed :: "(jsstring \<Rightarrow> jsstring) \<Rightarrow> jsstring \<Rightarrow> jsstring" where
  "anchorAsClaimed toLowerCase t =
     trimHyphens (replaceRuns isSpace [HYPHEN] (filter anchorKeeps (toLowerCase t)))"

definition isSpaceOrHyphen :: "cu \<Rightarrow> bool" where
  "isSpaceOrHyphen c \<longleftrightarrow> isSpace c \<or> isHyphen c"

section \<open>DocumentIndexer: keywords, the index and the search\<close>

text \<open>
  \<open>s.split(/[c]+/)\<close> for a character class \<open>c\<close>: the pieces between the maximal runs of
  the class; a run at an end of the string leaves an empty piece there.
\<close>

function splitRuns :: "(cu \<Rightarrow> bool) \<Rightarrow> jsstring \<Rightarrow> jsstring list" where
  "splitRuns p [] = [[]]"
| "splitRuns p (c # cs) =
     (if p c then [] # splitRuns p (dropWhile p cs)
      else (case splitRuns p cs of
              [] \<Rightarrow> [[c]]
            | w # ws \<Rightarrow> (c # w) # ws))"
  by pat_completeness auto
termination
  by (relation "measure (\<lambda>(p, s). length s)")
     (auto simp: length_dropWhile_le less_Suc_eq_le)

text \<open>
  \<^verbatim>\<open>content.match(/[\uAC00-\uD7A3]+|[a-zA-Z]+[a-zA-Z0-9]*/g) || []\<close>: the matches from
  left to right. At a Hangul syllable the first alternative takes the whole run of
  syllables; at a Latin letter the second takes the letter and every letter or digit after
  it; at any other code unit there is no match and the scan moves on by one.
\<close>

function matchWords :: "jsstring \<Rightarrow> jsstring list" where
  "matchWords [] = []"
| "matchWords (c # cs) =
     (if isHangul c then (c # takeWhile isHangul cs) # matchWords (dropWhile isHangul cs)
      else if isLetter c then (c # takeWhile isAlnum cs) # matchWords (dropWhile isAlnum cs)
      else matchWords cs)"
  by pat_completeness auto
termination
  by (relation "measure length") (auto simp: length_dropWhile_le less_Suc_eq_le)

text \<open>\<open>keywords.add(w)\<close> on a \<open>Set\<close>, which keeps the order of first insertion.\<close>

definition setAdd :: "'a \<Rightarrow> 'a list \<Rightarrow> 'a list" where
  "setAdd x ks = (if x \<in> set ks then ks else ks @ [x])"

definition titleWords :: "jsstring \<Rightarrow> jsstring list" where
  "titleWords t = filter (\<lambda>w. 1 < length w) (splitRuns isSpace t)"

definition contentWords :: "jsstring \<Rightarrow> jsstring list" where
  "contentWords c = take 50 (filter (\<lambda>w. 2 < length w) (matchWords c))"

definition extractKeywords :: "(jsstring \<Rightarrow> jsstring) \<Rightarrow> jsstring \<Rightarrow> jsstring \<Rightarrow> jsstring list" where
  "extractKeywords toLowerCase t c =
     (let keywords = [];
          keywords = fold (\<lambda>w. setAdd (toLowerCase w)) (titleWords t) keywords;
          keywords = fold (\<lambda>w. setAdd (toLowerCase w)) (contentWords c) keywords
      in keywords)"

record DocumentIndex =
  filePath :: jsstring
  absolutePath :: jsstring
  fileName :: jsstring
  doc_title :: jsstring
  doc_content :: jsstring
  doc_sections :: "DocumentSection list"
  doc_keywords :: "jsstring list"

text \<open>
  The index is a \<open>Map\<close> from relative path to document: the entries in insertion order,
  one per key. \<open>set\<close> on a key that is present replaces its value in place.
\<close>

type_synonym index = "(jsstring \<times> DocumentIndex) list"

fun index_set :: "jsstring \<Rightarrow> DocumentIndex \<Rightarrow> index \<Rightarrow> index" where
  "index_set k v [] = [(k, v)]"
| "index_set k v ((k', v') # kvs) =
     (if k = k' then (k, v) # kvs else (k', v') # index_set k v kvs)"

definition index_values :: "index \<Rightarrow> DocumentIndex list" where
  "index_values idx = map snd idx"

text \<open>The score of one document, as the loop body of \<open>searchDocuments\<close> computes it.\<close>

definition docScore :: "(jsstring \<Rightarrow> jsstring) \<Rightarrow> jsstring \<Rightarrow> DocumentIndex \<Rightarrow> int" where
  "docScore toLowerCase lowerQuery doc =
     (let score = 0;
          score = (if includes_str (toLowerCase (doc_title doc)) lowerQuery
                   then score + 10 else score);
          score = (if includes_str (toLowerCase (fileName doc)) lowerQuery
                   then score + 5 else score);
          keywordMatches = int (length (filter (\<lambda>k. includes_str k lowerQuery) (doc_keywords doc)));
          score = score + keywordMatches;
          score = (if includes_str (toLowerCase (doc_content doc)) lowerQuery
                   then score + 1 else score)
      in score)"

definition searchStep ::
  "(jsstring \<Rightarrow> jsstring) \<Rightarrow> jsstring \<Rightarrow> DocumentIndex \<Rightarrow> (DocumentIndex \<times> int) list \<Rightarrow> (DocumentIndex \<times> int) list" where
  "searchStep toLowerCase lowerQuery doc results =
     (let score = docScore toLowerCase lowerQuery doc
      in if 0 < score then results @ [(doc, score)] else results)"

text \<open>
  \<open>Array.prototype.sort\<close> with a comparator. The sort is stable (ECMAScript 2019), so
  its result is the one of the stable insertion sort: an element goes before the first
  element it does not compare greater than.
\<close>

fun insertBy :: "('a \<Rightarrow> 'a \<Rightarrow> int) \<Rightarrow> 'a \<Rightarrow> 'a list \<Rightarrow> 'a list" where
  "insertBy cmp x [] = [x]"
| "insertBy cmp x (y # ys) =
     (if cmp x y \<le> 0 then x # y # ys else y # insertBy cmp x ys)"

definition sortBy :: "('a \<Rightarrow> 'a \<Rightarrow> int) \<Rightarrow> 'a list \<Rightarrow> 'a list" where
  "sortBy cmp xs = foldr (insertBy cmp) xs []"

text \<open>The comparator \<open>(a, b) => b.score - a.score\<close>.\<close>

definition byScoreDesc :: "(DocumentIndex \<times> int) \<Rightarrow> (DocumentIndex \<times> int) \<Rightarrow> int" where
  "byScoreDesc a b = snd b - snd a"

definition searchDocuments :: "(jsstring \<Rightarrow> jsstring) \<Rightarrow> index \<Rightarrow> jsstring \<Rightarrow> DocumentIndex list" where
  "searchDocuments toLowerCase idx query =
     (let lowerQuery = toLowerCase query;
          results = fold (searchStep toLowerCase lowerQuery) (index_values idx) [];
          results = sortBy byScoreDesc results
      in map fst results)"

text \<open>Documents for the examples below.\<close>

definition mkDoc :: "string \<Rightarrow> string \<Rightarrow> string \<Rightarrow> DocumentIndex" where
  "mkDoc path name markdown =
     \<lparr> filePath = js path, absolutePath = js ''/docs/'' @ js path, fileName = js name,
       doc_title = parsed_title (parseMarkdown toLowerCaseLatin1 (js markdown)),
       doc_content = js markdown,
       doc_sections = parsed_sections (parseMarkdown toLowerCaseLatin1 (js markdown)),
       doc_keywords = extractKeywords toLowerCaseLatin1
                        (parsed_title (parseMarkdown toLowerCaseLatin1 (js markdown))) (js markdown) \<rparr>"

definition exampleIndex :: index where
  "exampleIndex =
     [(js ''api/pay.md'', mkDoc ''api/pay.md'' ''pay.md'' ''# Payment API\<newline>approve a payment''),
      (js ''README.md'', mkDoc ''README.md'' ''README.md'' ''# Guide\<newline>see the payment page'')]"

text \<open>
  A document whose title is the one capital letter U+00C9 (E with acute accent; its
  lower-case letter is U+00E9), as \<open>indexFile\<close> builds it from a file \<open>api/e.md\<close> that
  holds this heading only.
\<close>

definition accentDoc :: DocumentIndex where
  "accentDoc =
     \<lparr> filePath = js ''api/e.md'', absolutePath = js ''/docs/api/e.md'', fileName = js ''e.md'',
       doc_title = parsed_title (parseMarkdown toLowerCaseLatin1 (js ''# '' @ [0xC9])),
       doc_content = js ''# '' @ [0xC9],
       doc_sections = parsed_sections (parseMarkdown toLowerCaseLatin1 (js ''# '' @ [0xC9])),
       doc_keywords = extractKeywords toLowerCaseLatin1
                        (parsed_title (parseMarkdown toLowerCaseLatin1 (js ''# '' @ [0xC9])))
                        (js ''# '' @ [0xC9]) \<rparr>"

definition accentIndex :: index where
  "accentIndex = [(js ''api/e.md'', accentDoc)]"





section \<open>MarkdownParser: tables and API endpoints\<close>

record TableCell =
  cell_content :: jsstring
  isHeader :: bool

record TableRow =
  cells :: "TableCell list"

record Table =
  headers :: "jsstring list"
  rows :: "TableRow list"
  raw :: jsstring

text \<open>\<open>s.startsWith('|')\<close> and \<open>s.endsWith('|')\<close>.\<close>

definition startsWithPipe :: "jsstring \<Rightarrow> bool" where
  "startsWithPipe s \<longleftrightarrow> (case s of [] \<Rightarrow> False | c # _ \<Rightarrow> c = PIPE)"

definition endsWithPipe :: "jsstring \<Rightarrow> bool" where
  "endsWithPipe s \<longleftrightarrow> s \<noteq> [] \<and> last s = PIPE"

text \<open>
  \<^verbatim>\<open>line.split('|').map(cell => cell.trim()).filter(cell => cell.length > 0)\<close>: the
  non-empty cells of a line.
\<close>

definition splitCells :: "jsstring \<Rightarrow> jsstring list" where
  "splitCells line = filter (\<lambda>cell. 0 < length cell) (map trim (splitOn PIPE line))"

text \<open>The body of the loop over the data lines (the third line and on).\<close>

definition rowStep :: "jsstring \<Rightarrow> TableRow list \<Rightarrow> TableRow list" where
  "rowStep rowLine rws =
     (let rowCells = map (\<lambda>cell. \<lparr> cell_content = cell, isHeader = False \<rparr>) (splitCells rowLine)
      in if 0 < length rowCells then rws @ [\<lparr> cells = rowCells \<rparr>] else rws)"

definition parseTable :: "jsstring \<Rightarrow> Table option" where
  "parseTable tableText =
     (let lines = filter (\<lambda>line. trim line \<noteq> []) (splitOn LF (trim tableText))
      in if length lines < 2 then None
         else Some \<lparr> headers = splitCells (lines ! 0),
                     rows = fold rowStep (drop 2 lines) [],
                     raw = tableText \<rparr>)"

text \<open>The state of the loop of \<open>extractTables\<close>: \<open>tables\<close>, \<open>currentTable\<close>, \<open>inTable\<close>.\<close>

type_synonym tables_state = "Table list \<times> jsstring list \<times> bool"

text \<open>Parsing the collected lines and pushing the table, if there is one.\<close>

definition pushTable :: "jsstring list \<Rightarrow> Table list \<Rightarrow> Table list" where
  "pushTable currentTable tables =
     (case parseTable (joinWith LF currentTable) of
        Some t \<Rightarrow> tables @ [t]
      | None \<Rightarrow> tables)"

definition tablesStep :: "jsstring \<Rightarrow> tables_state \<Rightarrow> tables_state" where
  "tablesStep line st =
     (case st of (tables, currentTable, inTable) \<Rightarrow>
        if startsWithPipe (trim line) \<and> endsWithPipe (trim line) then
          (if \<not> inTable then (tables, [] @ [line], True)
           else (tables, currentTable @ [line], inTable))
        else if startsWithPipe (trim line) then
          (if inTable then (tables, currentTable @ [line], inTable)
           else (tables, currentTable, inTable))
        else
          (if inTable \<and> 2 \<le> length currentTable
           then (pushTable currentTable tables, [], False)
           else (tables, currentTable, inTable)))"

definition extractTables :: "jsstring \<Rightarrow> Table list" where
  "extractTables markdown =
     (case fold tablesStep (splitOn LF markdown) ([], [], False) of
        (tables, currentTable, inTable) \<Rightarrow>
          if inTable \<and> 2 \<le> length currentTable then pushTable currentTable tables
          else tables)"

text \<open>\<open>xs.findIndex(p)\<close>, with \<open>None\<close> for \<open>-1\<close>.\<close>

fun findIndex :: "('a \<Rightarrow> bool) \<Rightarrow> 'a list \<Rightarrow> nat option" where
  "findIndex p [] = None"
| "findIndex p (x # xs) = (if p x then Some 0 else map_option Suc (findIndex p xs))"

text \<open>\<^verbatim>\<open>row.cells[i]?.content || ''\<close>.\<close>

definition cellAt :: "TableRow \<Rightarrow> nat \<Rightarrow> jsstring" where
  "cellAt row i = (if i < length (cells row) then cell_content (cells row ! i) else [])"

record Endpoint =
  ep_api :: jsstring
  ep_method :: jsstring
  ep_endpoint :: jsstring

text \<open>The three header tests; the Korean word is U+AE30 U+B2A5.\<close>

definition isApiHeader :: "(jsstring \<Rightarrow> jsstring) \<Rightarrow> jsstring \<Rightarrow> bool" where
  "isApiHeader toLowerCase h \<longleftrightarrow>
     includes_str (toLowerCase h) (js ''api'') \<or> includes_str (toLowerCase h) [0xAE30, 0xB2A5]"

definition isMethodHeader :: "(jsstring \<Rightarrow> jsstring) \<Rightarrow> jsstring \<Rightarrow> bool" where
  "isMethodHeader toLowerCase h \<longleftrightarrow> includes_str (toLowerCase h) (js ''method'')"

definition isEndpointHeader :: "(jsstring \<Rightarrow> jsstring) \<Rightarrow> jsstring \<Rightarrow> bool" where
  "isEndpointHeader toLowerCase h \<longleftrightarrow>
     includes_str (toLowerCase h) (js ''endpoint'') \<or> includes_str (toLowerCase h) (js ''url'')"

text \<open>The body of the loop over the rows of a table whose three columns were found.\<close>

definition endpointStep :: "nat \<Rightarrow> nat \<Rightarrow> nat \<Rightarrow> TableRow \<Rightarrow> Endpoint list \<Rightarrow> Endpoint list" where
  "endpointStep apiIndex methodIndex endpointIndex row endpoints =
     (let api = cellAt row apiIndex;
          method = cellAt row methodIndex;
          endpoint = cellAt row endpointIndex
      in if api \<noteq> [] \<and> method \<noteq> [] \<and> endpoint \<noteq> []
         then endpoints @ [\<lparr> ep_api = api, ep_method = method, ep_endpoint = endpoint \<rparr>]
         else endpoints)"

text \<open>The body of the loop over the tables.\<close>

definition tableEndpoints :: "(jsstring \<Rightarrow> jsstring) \<Rightarrow> Table \<Rightarrow> Endpoint list \<Rightarrow> Endpoint list" where
  "tableEndpoints toLowerCase table endpoints =
     (case (findIndex (isApiHeader toLowerCase) (headers table),
            findIndex (isMethodHeader toLowerCase) (headers table),
            findIndex (isEndpointHeader toLowerCase) (headers table)) of
        (Some apiIndex, Some methodIndex, Some endpointIndex) \<Rightarrow>
          fold (endpointStep apiIndex methodIndex endpointIndex) (rows table) endpoints
      | _ \<Rightarrow> endpoints)"

definition extractAPIEndpoints :: "(jsstring \<Rightarrow> jsstring) \<Rightarrow> jsstring \<Rightarrow> Endpoint list" where
  "extractAPIEndpoints toLowerCase markdown =
     fold (tableEndpoints toLowerCase) (extractTables markdown) []"

text \<open>No row of the table has a cell with an empty content.\<close>

definition noEmptyCell :: "Table \<Rightarrow> bool" where
  "noEmptyCell t \<longleftrightarrow> (\<forall>row \<in> set (rows t). \<forall>cell \<in> set (cells row). cell_content cell \<noteq> [])"

section \<open>MarkdownParser.extractLinks\<close>

record Link =
  link_text :: jsstring
  link_url :: jsstring
  link_title :: "jsstring option"

definition DQUOTE :: cu where "DQUOTE = 0x22"

text \<open>
  The inline pattern \<^verbatim>\<open>/\[([^\]]+)\]\(([^)]+)(?:\s+"([^"]+)")?\)/g\<close>, written out
  atom by atom: \<open>titlePart\<close> is the body \<^verbatim>\<open>\s+"([^"]+)"\<close> of the optional group,
  \<open>linkTail\<close> is the pattern from the second group on.
\<close>

definition titlePart :: regex where
  "titlePart =
     Cat (Plus (Cls isSpace))
    (Cat (Cls (\<lambda>c. c = DQUOTE))
    (Cat (Grp 3 (Plus (Cls (\<lambda>c. c \<noteq> DQUOTE))))
         (Cls (\<lambda>c. c = DQUOTE))))"

definition linkTail :: regex where
  "linkTail =
     Cat (Grp 2 (Plus (Cls (\<lambda>c. c \<noteq> 0x29))))
    (Cat (Opt titlePart)
         (Cls (\<lambda>c. c = 0x29)))"

definition linkPattern :: regex where
  "linkPattern =
     Cat (Cls (\<lambda>c. c = 0x5B))
    (Cat (Grp 1 (Plus (Cls (\<lambda>c. c \<noteq> 0x5D))))
    (Cat (Cls (\<lambda>c. c = 0x5D))
    (Cat (Cls (\<lambda>c. c = 0x28))
         linkTail)))"

text \<open>The reference pattern \<^verbatim>\<open>/\[([^\]]+)\]\[([^\]]+)\]/g\<close>.\<close>

definition referenceLinkPattern :: regex where
  "referenceLinkPattern =
     Cat (Cls (\<lambda>c. c = 0x5B))
    (Cat (Grp 1 (Plus (Cls (\<lambda>c. c \<noteq> 0x5D))))
    (Cat (Cls (\<lambda>c. c = 0x5D))
    (Cat (Cls (\<lambda>c. c = 0x5B))
    (Cat (Grp 2 (Plus (Cls (\<lambda>c. c \<noteq> 0x5D))))
         (Cls (\<lambda>c. c = 0x5D))))))"

text \<open>
  The loop \<^verbatim>\<open>while ((match = re.exec(content)) !== null)\<close> of a global pattern: each
  call starts at \<open>lastIndex\<close>, the end of the match before. A match that does not move
  \<open>lastIndex\<close> would be found again for ever: the result is then \<open>None\<close>.
\<close>

lemma exec_Some_from: "exec r inp from = Some m \<Longrightarrow> from \<le> length inp"
  by (cases "from \<le> length inp") (simp_all add: exec_def)

function execAll :: "regex \<Rightarrow> jsstring \<Rightarrow> nat \<Rightarrow> (nat \<times> nat \<times> captures) list option" where
  "execAll r inp from =
     (case exec r inp from of
        None \<Rightarrow> Some []
      | Some (s, e, cp) \<Rightarrow>
          if from < e then map_option ((#) (s, e, cp)) (execAll r inp e) else None)"
  by pat_completeness auto
termination
  by (relation "measure (\<lambda>(r, inp, from). Suc (length inp) - from)")
     (auto dest: exec_Some_from)

declare execAll.simps [simp del]

text \<open>\<open>match[n]\<close> for a group that took part in the match.\<close>

definition matched :: "captures \<Rightarrow> nat \<Rightarrow> jsstring" where
  "matched cp n = (case cp n of Some s \<Rightarrow> s | None \<Rightarrow> [])"

definition inlineLink :: "captures \<Rightarrow> Link" where
  "inlineLink cp = \<lparr> link_text = matched cp 1, link_url = matched cp 2, link_title = cp 3 \<rparr>"

datatype links_error = SyntaxError

text \<open>
  The second loop builds, for each reference match, a pattern from the text of the
  reference with \<open>new RegExp\<close>. The constructor is the parameter \<open>newRegExp\<close>: it returns
  the pattern for \<^verbatim>\<open>\[ref\]:\s+([^\s]+)\<close>, or \<open>None\<close> when it throws on text that is
  not a pattern.
\<close>

fun referenceLoop ::
  "(jsstring \<Rightarrow> regex option) \<Rightarrow> jsstring \<Rightarrow> (nat \<times> nat \<times> captures) list \<Rightarrow> Link list
     \<Rightarrow> links_error + Link list" where
  "referenceLoop newRegExp src [] links = Inr links"
| "referenceLoop newRegExp src ((ms, me, cp) # rest) links =
     (case newRegExp (matched cp 2) of
        None \<Rightarrow> Inl SyntaxError
      | Some refDefinitionPattern \<Rightarrow>
          (case exec refDefinitionPattern src 0 of
             Some (s, e, refMatch) \<Rightarrow>
               referenceLoop newRegExp src rest
                 (links @ [\<lparr> link_text = matched cp 1, link_url = matched refMatch 1,
                              link_title = None \<rparr>])
           | None \<Rightarrow> referenceLoop newRegExp src rest links))"

definition extractLinks ::
  "(jsstring \<Rightarrow> regex option) \<Rightarrow> jsstring \<Rightarrow> (links_error + Link list) option" where
  "extractLinks newRegExp src =
     (case execAll linkPattern src 0 of
        None \<Rightarrow> None
      | Some ms \<Rightarrow>
          (case execAll referenceLinkPattern src 0 of
             None \<Rightarrow> None
           | Some rs \<Rightarrow> Some (referenceLoop newRegExp src rs (map (\<lambda>(s, e, cp). inlineLink cp) ms))))"

text \<open>The inputs \<^verbatim>\<open>[a](u "t")\<close> and \<^verbatim>\<open>[a](u)\<close>.\<close>

section \<open>The regular-expression methods of String\<close>

text \<open>
  \<open>s.match(re)\<close>, \<open>s.replace(re, r)\<close> and \<open>s.split(re)\<close> for a global pattern that never
  matches the empty string, and a replacement without \<open>$\<close>: the matches are found from
  left to right, each search starting at the end of the match before. They are what the
  scanners \<open>matchWords\<close>, \<open>replaceRuns\<close> and \<open>splitRuns\<close> are checked against.
\<close>

fun replacePieces :: "jsstring \<Rightarrow> jsstring \<Rightarrow> nat \<Rightarrow> (nat \<times> nat \<times> captures) list \<Rightarrow> jsstring" where
  "replacePieces inp rep pos [] = drop pos inp"
| "replacePieces inp rep pos ((s, e, cp) # ms) =
     slice_arr inp pos s @ rep @ replacePieces inp rep e ms"

fun splitPieces :: "jsstring \<Rightarrow> nat \<Rightarrow> (nat \<times> nat \<times> captures) list \<Rightarrow> jsstring list" where
  "splitPieces inp pos [] = [drop pos inp]"
| "splitPieces inp pos ((s, e, cp) # ms) = slice_arr inp pos s # splitPieces inp e ms"

definition regexMatch :: "regex \<Rightarrow> jsstring \<Rightarrow> jsstring list option" where
  "regexMatch r inp = map_option (map (\<lambda>(s, e, cp). slice_arr inp s e)) (execAll r inp 0)"

definition regexReplace :: "regex \<Rightarrow> jsstring \<Rightarrow> jsstring \<Rightarrow> jsstring option" where
  "regexReplace r rep inp = map_option (replacePieces inp rep 0) (execAll r inp 0)"

definition regexSplit :: "regex \<Rightarrow> jsstring \<Rightarrow> jsstring list option" where
  "regexSplit r inp = map_option (splitPieces inp 0) (execAll r inp 0)"

text \<open>The patterns of \<open>extractKeywords\<close> and \<open>generateAnchor\<close>.\<close>

definition wordPattern :: regex where
  "wordPattern =
     Alt (Plus (Cls isHangul))
         (Cat (Plus (Cls isLetter)) (Star (Cls isAlnum)))"

section \<open>Example inputs\<close>

definition titledLink :: jsstring where
  "titledLink = js ''[a](u '' @ [DQUOTE] @ js ''t'' @ [DQUOTE] @ js '')''"

definition plainLink :: jsstring where
  "plainLink = js ''[a](u)''"

section \<open>DocumentIndexer.buildIndex\<close>

text \<open>
  The file system as \<open>buildIndex\<close> sees it. A file has a content or cannot be read
  (\<open>readFileSync\<close> throws); a directory has its entries, in the order \<open>readdirSync\<close> returns
  them, or cannot be listed (\<open>readdirSync\<close> throws); anything else is neither a file nor a
  directory. The directory at \<open>docsBasePath\<close> is given by its entries: a base path that
  does not exist or cannot be reached has none (\<open>existsSync\<close> is false for every path
  below it).
\<close>

datatype fsnode =
    File "jsstring option"
  | Dir "(jsstring \<times> fsnode) list option"
  | Other

text \<open>
  \<open>path.join\<close> and \<open>path.basename\<close> are functions of the host as well (the module
  \<open>path\<close> of the platform). The functions of the traversal take them as the arguments
  \<open>join\<close> and \<open>basename\<close>, and the general theorems hold for every pair of functions in
  their place. The traversal itself goes down the tree: \<open>fullPath\<close> names the entry it was
  joined from.

  The examples are evaluated with the functions of \<open>path.posix\<close>. \<open>join\<close> puts a slash
  between its non-empty arguments and normalises the result: empty segments and \<open>.\<close> are
  dropped, \<open>..\<close> removes the segment before it (and is kept at the start of a relative
  path), a slash at the end is kept. \<open>basename\<close> is the last segment, the slashes at the
  end of the path left aside.
\<close>

fun normalizeSegments :: "bool \<Rightarrow> jsstring list \<Rightarrow> jsstring list \<Rightarrow> jsstring list" where
  "normalizeSegments allowAboveRoot [] res = res"
| "normalizeSegments allowAboveRoot (seg # segs) res =
     (if seg = [] \<or> seg = js ''.'' then normalizeSegments allowAboveRoot segs res
      else if seg = js ''..'' then
        (if res \<noteq> [] \<and> last res \<noteq> js ''..''
         then normalizeSegments allowAboveRoot segs (butlast res)
         else if allowAboveRoot then normalizeSegments allowAboveRoot segs (res @ [js ''..''])
         else normalizeSegments allowAboveRoot segs res)
      else normalizeSegments allowAboveRoot segs (res @ [seg]))"

definition posixNormalize :: "jsstring \<Rightarrow> jsstring" where
  "posixNormalize p =
     (if p = [] then js ''.''
      else
        (let isAbsolute = (hd p = SLASH);
             trailingSeparator = (last p = SLASH);
             res = joinWith SLASH (normalizeSegments (\<not> isAbsolute) (splitOn SLASH p) [])
         in if res = [] then
              (if isAbsolute then js ''/'' else if trailingSeparator then js ''./'' else js ''.'')
            else
              (let res = (if trailingSeparator then res @ [SLASH] else res)
               in if isAbsolute then SLASH # res else res)))"

definition posixJoin :: "jsstring \<Rightarrow> jsstring \<Rightarrow> jsstring" where
  "posixJoin a b =
     (if a = [] \<and> b = [] then js ''.''
      else if a = [] then posixNormalize b
      else if b = [] then posixNormalize a
      else posixNormalize (a @ [SLASH] @ b))"

definition posixBasename :: "jsstring \<Rightarrow> jsstring" where
  "posixBasename p = last (splitOn SLASH (rev (dropWhile (\<lambda>c. c = SLASH) (rev p))))"

text \<open>
  What leaves a function: it returns, or it throws. \<open>readdirSync\<close> is the one call of the
  traversal outside a \<open>try\<close>.
\<close>

datatype build_error = ReaddirError

datatype outcome = Completed | Threw build_error

text \<open>
  \<open>indexFile\<close>: reading and parsing are inside \<open>try\<close>; on an exception the file is
  logged and left out.
\<close>

definition indexFile ::
  "(jsstring \<Rightarrow> jsstring) \<Rightarrow> (jsstring \<Rightarrow> jsstring) \<Rightarrow> fsnode \<Rightarrow> jsstring \<Rightarrow> jsstring \<Rightarrow> index \<Rightarrow> index" where
  "indexFile toLowerCase basename node path relativePath idx =
     (case node of
        File (Some text) \<Rightarrow>
          (let p = parseMarkdown toLowerCase text;
               docIndex = \<lparr> filePath = relativePath, absolutePath = path,
                            fileName = basename path,
                            doc_title = parsed_title p,
                            doc_content = text,
                            doc_sections = parsed_sections p,
                            doc_keywords = extractKeywords toLowerCase (parsed_title p) text \<rparr>
           in index_set relativePath docIndex idx)
      | _ \<Rightarrow> idx)"

definition skippedDir :: "jsstring \<Rightarrow> bool" where
  "skippedDir name \<longleftrightarrow> name = js ''image'' \<or> name = js ''node_modules'' \<or> name = js ''dist''"

text \<open>
  \<open>indexDirectory\<close> and its loop over the entries. An exception of a recursive call ends
  the loop and leaves the function; the index keeps what was inserted before.
\<close>

fun indexDirectory ::
    "(jsstring \<Rightarrow> jsstring) \<Rightarrow> (jsstring \<Rightarrow> jsstring \<Rightarrow> jsstring) \<Rightarrow> (jsstring \<Rightarrow> jsstring) \<Rightarrow>
     fsnode \<Rightarrow> jsstring \<Rightarrow> jsstring \<Rightarrow> index \<Rightarrow> outcome \<times> index"
  and indexEntries ::
    "(jsstring \<Rightarrow> jsstring) \<Rightarrow> (jsstring \<Rightarrow> jsstring \<Rightarrow> jsstring) \<Rightarrow> (jsstring \<Rightarrow> jsstring) \<Rightarrow>
     (jsstring \<times> fsnode) list \<Rightarrow> jsstring \<Rightarrow> jsstring \<Rightarrow> index \<Rightarrow> outcome \<times> index"
where
  "indexDirectory toLowerCase join basename (Dir (Some entries)) dirPath relativeBase idx =
     indexEntries toLowerCase join basename entries dirPath relativeBase idx"
| "indexDirectory toLowerCase join basename (Dir None) dirPath relativeBase idx =
     (Threw ReaddirError, idx)"
| "indexDirectory toLowerCase join basename (File c) dirPath relativeBase idx =
     (Threw ReaddirError, idx)"
| "indexDirectory toLowerCase join basename Other dirPath relativeBase idx =
     (Threw ReaddirError, idx)"
| "indexEntries toLowerCase join basename [] dirPath relativeBase idx = (Completed, idx)"
| "indexEntries toLowerCase join basename ((name, Dir d) # rest) dirPath relativeBase idx =
     (let fullPath = join dirPath name in
      if \<not> skippedDir name then
        (case indexDirectory toLowerCase join basename (Dir d) fullPath (join relativeBase name) idx of
           (Threw e, idx') \<Rightarrow> (Threw e, idx')
         | (Completed, idx') \<Rightarrow>
             indexEntries toLowerCase join basename rest dirPath relativeBase idx')
      else indexEntries toLowerCase join basename rest dirPath relativeBase idx)"
| "indexEntries toLowerCase join basename ((name, File c) # rest) dirPath relativeBase idx =
     (let fullPath = join dirPath name in
      if suffix (js ''.md'') name
      then (let relativePath = join relativeBase name
            in indexEntries toLowerCase join basename rest dirPath relativeBase
                 (indexFile toLowerCase basename (File c) fullPath relativePath idx))
      else indexEntries toLowerCase join basename rest dirPath relativeBase idx)"
| "indexEntries toLowerCase join basename ((name, Other) # rest) dirPath relativeBase idx =
     indexEntries toLowerCase join basename rest dirPath relativeBase idx"

definition targetDirs :: "jsstring list" where
  "targetDirs = [js ''api'', js ''common'', js ''management'', js ''migration'']"

text \<open>
  The loop over the target directories: \<open>existsSync(dirPath) && statSync(dirPath).isDirectory()\<close>
  holds when the base directory has a directory of that name.
\<close>

fun indexTargets ::
  "(jsstring \<Rightarrow> jsstring) \<Rightarrow> (jsstring \<Rightarrow> jsstring \<Rightarrow> jsstring) \<Rightarrow> (jsstring \<Rightarrow> jsstring) \<Rightarrow>
   (jsstring \<times> fsnode) list \<Rightarrow> jsstring \<Rightarrow> jsstring list \<Rightarrow> index \<Rightarrow> outcome \<times> index" where
  "indexTargets toLowerCase join basename root docsBasePath [] idx = (Completed, idx)"
| "indexTargets toLowerCase join basename root docsBasePath (dir # dirs) idx =
     (let dirPath = join docsBasePath dir in
      case map_of root dir of
        Some (Dir d) \<Rightarrow>
          (case indexDirectory toLowerCase join basename (Dir d) dirPath dir idx of
             (Threw e, idx') \<Rightarrow> (Threw e, idx')
           | (Completed, idx') \<Rightarrow> indexTargets toLowerCase join basename root docsBasePath dirs idx')
      | _ \<Rightarrow> indexTargets toLowerCase join basename root docsBasePath dirs idx)"

text \<open>
  \<open>buildIndex\<close>, from the index before the call to the outcome and the index after it:
  the first statement clears the index.
\<close>

definition buildIndex ::
  "(jsstring \<Rightarrow> jsstring) \<Rightarrow> (jsstring \<Rightarrow> jsstring \<Rightarrow> jsstring) \<Rightarrow> (jsstring \<Rightarrow> jsstring) \<Rightarrow>
   jsstring \<Rightarrow> (jsstring \<times> fsnode) list \<Rightarrow> index \<Rightarrow> outcome \<times> index" where
  "buildIndex toLowerCase join basename docsBasePath root idx =
     (let cleared = [] in
      case indexTargets toLowerCase join basename root docsBasePath targetDirs cleared of
        (Threw e, idx') \<Rightarrow> (Threw e, idx')
      | (Completed, idx') \<Rightarrow>
          (let rootReadme = join docsBasePath (js ''README.md'') in
           case map_of root (js ''README.md'') of
             Some node \<Rightarrow>
               (Completed, indexFile toLowerCase basename node rootReadme (js ''README.md'') idx')
           | None \<Rightarrow> (Completed, idx')))"

text \<open>
  The caller \<open>initializeIndexer\<close>: \<open>buildIndex\<close> inside \<open>try\<close>, the exception logged in
  \<open>catch\<close>.
\<close>

definition initializeIndexer ::
  "(jsstring \<Rightarrow> jsstring) \<Rightarrow> (jsstring \<Rightarrow> jsstring \<Rightarrow> jsstring) \<Rightarrow> (jsstring \<Rightarrow> jsstring) \<Rightarrow>
   jsstring \<Rightarrow> (jsstring \<times> fsnode) list \<Rightarrow> index \<Rightarrow> outcome \<times> index" where
  "initializeIndexer toLowerCase join basename docsBasePath root idx =
     (case buildIndex toLowerCase join basename docsBasePath root idx of
        (Threw e, idx') \<Rightarrow> (Completed, idx')
      | (Completed, idx') \<Rightarrow> (Completed, idx'))"

text \<open>
  A documentation tree whose \<open>api\<close> directory holds one readable file and whose \<open>common\<close>
  directory cannot be listed.
\<close>

definition brokenTree :: "(jsstring \<times> fsnode) list" where
  "brokenTree =
     [(js ''api'', Dir (Some [(js ''pay.md'', File (Some (js ''# Payment API\<newline>approve''))),
                              (js ''image'', Dir None)])),
      (js ''common'', Dir None),
      (js ''README.md'', File (Some (js ''# Guide'')))]"

text \<open>A documentation tree whose first target directory, \<open>api\<close>, cannot be listed.\<close>

definition unlistableTree :: "(jsstring \<times> fsnode) list" where
  "unlistableTree =
     [(js ''api'', Dir None),
      (js ''common'', Dir (Some [(js ''errors.md'', File (Some (js ''# Errors'')))])),
      (js ''README.md'', File (Some (js ''# Guide'')))]"

section \<open>Properties of extractSections\<close>

lemma sectionsLoop_append:
  "sectionsLoop (xs @ ys) i st = sectionsLoop ys (i + length xs) (sectionsLoop xs i st)"
  by (induction xs arbitrary: i st) auto

lemma sectionsLoop_snoc:
  "sectionsLoop (xs @ [l]) 0 st = sectionsStep (length xs) l (sectionsLoop xs 0 st)"
  by (simp add: sectionsLoop_append)

lemma tiles_snoc:
  "tiles a (ss @ [s]) b \<longleftrightarrow> tiles a ss (lineStart s - 1) \<and> lineStart s \<le> lineEnd s \<and> lineEnd s = b"
  by (induction ss arbitrary: a) auto

lemma tiles_le: "tiles a ss b \<Longrightarrow> a - 1 \<le> b"
proof (induction ss arbitrary: a)
  case Nil
  then show ?case by simp
next
  case (Cons s ss)
  from Cons.prems have "tiles (lineEnd s + 1) ss b" and "a \<le> lineEnd s" by auto
  with Cons.IH [of "lineEnd s + 1"] show ?case by simp
qed

lemma tiles_nonempty_le: "tiles a ss b \<Longrightarrow> ss \<noteq> [] \<Longrightarrow> a \<le> b"
  by (cases ss) (auto dest: tiles_le)

lemma slice_arr_append:
  "b \<le> length xs \<Longrightarrow> slice_arr (xs @ ys) a b = slice_arr xs a b"
  by (cases "a \<le> length xs") (simp_all add: slice_arr_def)

lemma sectionOk_append:
  assumes "sectionOk pre s"
  shows "sectionOk (pre @ ys) s"
proof -
  from assms have b: "0 \<le> lineStart s" "lineStart s \<le> lineEnd s" "lineEnd s < int (length pre)"
    by (auto simp: sectionOk_def)
  then have i: "nat (lineStart s) < length pre" "nat (lineEnd s) + 1 \<le> length pre" by auto
  have sl: "\<And>a. slice_arr (pre @ ys) a (Suc (nat (lineEnd s))) = slice_arr pre a (Suc (nat (lineEnd s)))"
    using i by (simp add: slice_arr_append)
  show ?thesis using assms i b
    by (simp add: sectionOk_def sl nth_append)
qed

lemma takeWhile_snoc_len:
  "length (takeWhile P (xs @ [x])) =
     (if length (takeWhile P xs) < length xs then length (takeWhile P xs)
      else if P x then Suc (length xs) else length xs)"
  by (induction xs) auto

lemma slice_arr_snoc:
  "a \<le> length xs \<Longrightarrow> slice_arr (xs @ [x]) a (Suc (length xs)) = slice_arr xs a (length xs) @ [x]"
  by (simp add: slice_arr_def)

lemma slice_arr_empty: "slice_arr xs a a = []"
  by (simp add: slice_arr_def)

lemma sectionsInv_heading:
  assumes inv: "sectionsInv pre st" and h: "headingMatch l = Some (g1, g2)"
  shows "sectionsInv (pre @ [l]) (sectionsStep (length pre) l st)"
proof -
  define n where "n = length pre"
  define R where "R = sectionsFinish n st"
  define c' where "c' = \<lparr> cur_level = length g1, cur_title = trim g2,
                            cur_content = [], cur_lineStart = int n \<rparr>"
  define s' where "s' = closeSection c' (int n)"
  have step: "sectionsStep n l st = (R, Some c')"
    using h by (cases st) (auto simp: sectionsStep_def R_def sectionsFinish_def c'_def split: option.splits)
  have fin: "sectionsFinish (Suc n) (R, Some c') = R @ [s']"
    by (simp add: sectionsFinish_def s'_def)
  from inv have t: "tiles (int (firstHeadingIndex pre)) R (int n - 1)"
    and ok: "\<forall>s \<in> set R. sectionOk pre s"
    by (auto simp: sectionsInv_def R_def n_def)
  have nh: "\<not> notHeading l" using h by (simp add: notHeading_def)
  have f: "firstHeadingIndex (pre @ [l]) = firstHeadingIndex pre"
    using nh length_takeWhile_le [of notHeading pre] by (simp add: firstHeadingIndex_def takeWhile_snoc_len)
  have s'_simps: "lineStart s' = int n" "lineEnd s' = int n" "level s' = length g1"
    "title s' = trim g2" "content s' = []"
    by (simp_all add: s'_def c'_def closeSection_def)
  have t': "tiles (int (firstHeadingIndex (pre @ [l]))) (R @ [s']) (int (Suc n) - 1)"
    using t by (simp add: f tiles_snoc s'_simps)
  have ok_s': "sectionOk (pre @ [l]) s'"
    using h by (simp add: sectionOk_def s'_simps n_def slice_arr_empty)
  have ok': "\<forall>s \<in> set (R @ [s']). sectionOk (pre @ [l]) s"
    using ok ok_s' by (auto intro: sectionOk_append)
  have cur': "cur_content c' = slice_arr (pre @ [l]) (nat (cur_lineStart c') + 1) (length (pre @ [l]))"
    by (simp add: c'_def n_def slice_arr_empty)
  show ?thesis
    unfolding sectionsInv_def n_def [symmetric]
    using t' ok' cur' by (simp add: step fin n_def [symmetric])
qed

lemma sectionsInv_plain_None:
  assumes inv: "sectionsInv pre (secs, None)" and h: "headingMatch l = None"
  shows "sectionsInv (pre @ [l]) (sectionsStep (length pre) l (secs, None))"
proof -
  from inv have e: "secs = []" and t: "int (length pre) - 1 = int (firstHeadingIndex pre) - 1"
    by (auto simp: sectionsInv_def sectionsFinish_def)
  have "firstHeadingIndex (pre @ [l]) = Suc (length pre)"
    using t h by (simp add: firstHeadingIndex_def takeWhile_snoc_len notHeading_def)
  then show ?thesis
    using h e by (simp add: sectionsInv_def sectionsStep_def sectionsFinish_def)
qed

lemma sectionsInv_plain_Some:
  assumes inv: "sectionsInv pre (secs, Some c)" and h: "headingMatch l = None"
  shows "sectionsInv (pre @ [l]) (sectionsStep (length pre) l (secs, Some c))"
proof -
  define n where "n = length pre"
  define c' where "c' = c\<lparr> cur_content := cur_content c @ [l] \<rparr>"
  define s where "s = closeSection c (int n - 1)"
  define s' where "s' = closeSection c' (int n)"
  have step: "sectionsStep n l (secs, Some c) = (secs, Some c')"
    using h by (simp add: sectionsStep_def c'_def)
  from inv have t: "tiles (int (firstHeadingIndex pre)) (secs @ [s]) (int n - 1)"
    and ok: "\<forall>x \<in> set secs. sectionOk pre x" and ok_s: "sectionOk pre s"
    and cc: "cur_content c = slice_arr pre (nat (cur_lineStart c) + 1) n"
    by (auto simp: sectionsInv_def sectionsFinish_def s_def n_def)
  have s_simps: "lineStart s = cur_lineStart c" "lineEnd s = int n - 1"
    "level s = cur_level c" "title s = cur_title c"
    by (simp_all add: s_def closeSection_def)
  have s'_simps: "lineStart s' = cur_lineStart c" "lineEnd s' = int n"
    "level s' = cur_level c" "title s' = cur_title c"
    "content s' = joinWith LF (cur_content c @ [l])"
    by (simp_all add: s'_def c'_def closeSection_def)
  from t have t1: "tiles (int (firstHeadingIndex pre)) secs (cur_lineStart c - 1)"
    and le: "cur_lineStart c \<le> int n - 1"
    by (simp_all add: tiles_snoc s_simps)
  from ok_s have ge: "0 \<le> cur_lineStart c" by (simp add: sectionOk_def s_simps)
  have flt: "firstHeadingIndex pre < length pre"
    using tiles_le [OF t1] le by (simp add: n_def)
  have f: "firstHeadingIndex (pre @ [l]) = firstHeadingIndex pre"
    using flt by (simp add: firstHeadingIndex_def takeWhile_snoc_len)
  have t': "tiles (int (firstHeadingIndex (pre @ [l]))) (secs @ [s']) (int (Suc n) - 1)"
    using t1 le by (simp add: f tiles_snoc s'_simps)
  have idx: "nat (cur_lineStart c) < n" "Suc (nat (cur_lineStart c)) \<le> n"
    using le ge by auto
  have sl: "slice_arr (pre @ [l]) (Suc (nat (cur_lineStart c))) (Suc n)
              = slice_arr pre (Suc (nat (cur_lineStart c))) n @ [l]"
    using idx by (simp add: n_def slice_arr_snoc)
  have n1: "Suc (nat (int n - 1)) = n" using idx by simp
  have ok_s': "sectionOk (pre @ [l]) s'"
    using ok_s h idx ge le cc
    by (simp add: sectionOk_def s_simps s'_simps sl n1 nth_append n_def [symmetric] notHeading_def)
  have ok': "\<forall>x \<in> set (secs @ [s']). sectionOk (pre @ [l]) x"
    using ok ok_s' by (auto intro: sectionOk_append)
  have cur': "cur_content c' = slice_arr (pre @ [l]) (nat (cur_lineStart c') + 1) (length (pre @ [l]))"
    using cc sl by (simp add: c'_def n_def [symmetric])
  show ?thesis
    using t' ok' cur'
    by (simp add: sectionsInv_def step [unfolded n_def] sectionsFinish_def s'_def n_def)
qed

lemma sectionsInv_step:
  assumes "sectionsInv pre st"
  shows "sectionsInv (pre @ [l]) (sectionsStep (length pre) l st)"
proof (cases "headingMatch l")
  case None
  obtain secs cur where st: "st = (secs, cur)" by (cases st)
  show ?thesis
    using assms None unfolding st
    by (cases cur) (auto intro: sectionsInv_plain_None sectionsInv_plain_Some)
next
  case (Some g)
  then show ?thesis using assms by (cases g) (auto intro: sectionsInv_heading)
qed

lemma sectionsInv_init: "sectionsInv [] ([], None)"
  by (simp add: sectionsInv_def sectionsFinish_def firstHeadingIndex_def)

lemma sectionsInv_loop: "sectionsInv lines (sectionsLoop lines 0 ([], None))"
proof (induction lines rule: rev_induct)
  case Nil
  show ?case by (simp add: sectionsInv_init)
next
  case (snoc l lines)
  then show ?case by (simp add: sectionsLoop_snoc sectionsInv_step)
qed


lemma extractSections_inv:
  "tiles (int (firstHeadingIndex (splitOn LF markdown))) (extractSections markdown)
         (int (length (splitOn LF markdown)) - 1)"
  "s \<in> set (extractSections markdown) \<Longrightarrow> sectionOk (splitOn LF markdown) s"
  using sectionsInv_loop [of "splitOn LF markdown"]
  by (simp_all add: sectionsInv_def extractSections_def Let_def)

lemma tiles_ranges: "tiles a ss b \<Longrightarrow> s \<in> set ss \<Longrightarrow> lineStart s \<le> lineEnd s"
  by (induction ss arbitrary: a) auto

lemma tiles_hd: "tiles a ss b \<Longrightarrow> ss \<noteq> [] \<Longrightarrow> lineStart (hd ss) = a"
  by (cases ss) auto

lemma tiles_last: "tiles a ss b \<Longrightarrow> ss \<noteq> [] \<Longrightarrow> lineEnd (last ss) = b"
  by (induction ss arbitrary: a) auto

lemma tiles_next:
  "tiles a ss b \<Longrightarrow> Suc k < length ss \<Longrightarrow> lineStart (ss ! Suc k) = lineEnd (ss ! k) + 1"
proof (induction ss arbitrary: a k)
  case Nil
  then show ?case by simp
next
  case (Cons s ss)
  show ?case
  proof (cases k)
    case 0
    with Cons.prems show ?thesis by (cases ss) auto
  next
    case (Suc j)
    with Cons.prems Cons.IH [of "lineEnd s + 1" j] show ?thesis by simp
  qed
qed

lemma firstHeadingIndex_props:
  "firstHeadingIndex lines \<le> length lines"
  "k < firstHeadingIndex lines \<Longrightarrow> headingMatch (lines ! k) = None"
  "firstHeadingIndex lines < length lines \<Longrightarrow> headingMatch (lines ! firstHeadingIndex lines) \<noteq> None"
proof -
  show "firstHeadingIndex lines \<le> length lines"
    by (simp add: firstHeadingIndex_def length_takeWhile_le)
  show "headingMatch (lines ! k) = None" if "k < firstHeadingIndex lines"
    using that nth_length_takeWhile [of notHeading lines] takeWhile_nth [of k notHeading lines]
      nth_mem [of k "takeWhile notHeading lines"] set_takeWhileD [of "lines ! k" notHeading lines]
    by (auto simp: firstHeadingIndex_def notHeading_def)
  show "headingMatch (lines ! firstHeadingIndex lines) \<noteq> None" if "firstHeadingIndex lines < length lines"
    using that nth_length_takeWhile [of notHeading lines]
    by (auto simp: firstHeadingIndex_def notHeading_def)
qed

text \<open>
  C10. For every input, the sections of \<open>extractSections\<close> are contiguous and do not overlap
  in line coordinates: each has \<open>lineEnd \<ge> lineStart\<close>; the first starts at the index of
  the first heading line (a line that matches the heading pattern, after lines that do not);
  each later one starts at the line after the end of the one before; and when there is a
  section, the last one ends at the last line index of the input.
\<close>

theorem extractSections_contiguous:
  "(\<forall>s \<in> set (extractSections markdown). lineStart s \<le> lineEnd s) \<and>
   (extractSections markdown \<noteq> [] \<longrightarrow>
      lineStart (hd (extractSections markdown)) = int (firstHeadingIndex (splitOn LF markdown)) \<and>
      firstHeadingIndex (splitOn LF markdown) < length (splitOn LF markdown) \<and>
      headingMatch (splitOn LF markdown ! firstHeadingIndex (splitOn LF markdown)) \<noteq> None \<and>
      (\<forall>k < firstHeadingIndex (splitOn LF markdown). headingMatch (splitOn LF markdown ! k) = None) \<and>
      lineEnd (last (extractSections markdown)) = int (length (splitOn LF markdown)) - 1) \<and>
   (\<forall>k. Suc k < length (extractSections markdown) \<longrightarrow>
      lineStart (extractSections markdown ! Suc k) = lineEnd (extractSections markdown ! k) + 1)"
proof -
  let ?lines = "splitOn LF markdown" and ?secs = "extractSections markdown"
  note t = extractSections_inv(1) [of markdown]
  have 1: "\<forall>s \<in> set ?secs. lineStart s \<le> lineEnd s"
    using tiles_ranges [OF t] by blast
  have 3: "\<forall>k. Suc k < length ?secs \<longrightarrow> lineStart (?secs ! Suc k) = lineEnd (?secs ! k) + 1"
    using tiles_next [OF t] by blast
  have 2: "lineStart (hd ?secs) = int (firstHeadingIndex ?lines) \<and>
           firstHeadingIndex ?lines < length ?lines \<and>
           headingMatch (?lines ! firstHeadingIndex ?lines) \<noteq> None \<and>
           (\<forall>k < firstHeadingIndex ?lines. headingMatch (?lines ! k) = None) \<and>
           lineEnd (last ?secs) = int (length ?lines) - 1" if ne: "?secs \<noteq> []"
  proof -
    have lt: "firstHeadingIndex ?lines < length ?lines"
      using tiles_nonempty_le [OF t ne] by simp
    show ?thesis
      using tiles_hd [OF t ne] tiles_last [OF t ne] lt firstHeadingIndex_props(2) [of _ ?lines] firstHeadingIndex_props(3) [of ?lines]
      by simp
  qed
  show ?thesis using 1 2 3 by blast
qed

theorem extractSections_contiguous_witness:
  "extractSections (js ''intro\<newline># A\<newline>text\<newline>## B'') \<noteq> [] \<and>
   lineStart (hd (extractSections (js ''intro\<newline># A\<newline>text\<newline>## B''))) = 1 \<and>
   lineEnd (last (extractSections (js ''intro\<newline># A\<newline>text\<newline>## B''))) = 3 \<and>
   Suc 0 < length (extractSections (js ''intro\<newline># A\<newline>text\<newline>## B'')) \<and>
   lineStart (extractSections (js ''intro\<newline># A\<newline>text\<newline>## B'') ! Suc 0) =
     lineEnd (extractSections (js ''intro\<newline># A\<newline>text\<newline>## B'') ! 0) + 1"
proof -
  let ?m = "js ''intro\<newline># A\<newline>text\<newline>## B''"
  have ne: "extractSections ?m \<noteq> []" by code_simp
  have len: "Suc 0 < length (extractSections ?m)" by code_simp
  have f: "int (firstHeadingIndex (splitOn LF ?m)) = 1" by code_simp
  have n: "int (length (splitOn LF ?m)) - 1 = 3" by code_simp
  show ?thesis
    using extractSections_contiguous [of ?m] ne len f n by simp
qed

subsection \<open>The sections partition the document\<close>

lemma joinWith_snoc: "xs \<noteq> [] \<Longrightarrow> joinWith sep (xs @ [x]) = joinWith sep xs @ sep # x"
  by (induction sep xs rule: joinWith.induct) auto

lemma splitOn_not_Nil: "splitOn sep s \<noteq> []"
  by (induction s) (auto split: list.splits)

lemma joinWith_splitOn: "joinWith sep (splitOn sep s) = s"
proof (induction s)
  case Nil
  show ?case by simp
next
  case (Cons c s)
  obtain p ps where sp: "splitOn sep s = p # ps"
    using splitOn_not_Nil [of sep s] by (cases "splitOn sep s") auto
  show ?case
  proof (cases "c = sep")
    case True
    with Cons sp show ?thesis by simp
  next
    case False
    with Cons sp show ?thesis by (cases ps) auto
  qed
qed

lemma slice_arr_Cons:
  "a < b \<Longrightarrow> a < length xs \<Longrightarrow> slice_arr xs a b = xs ! a # slice_arr xs (Suc a) b"
proof -
  assume ab: "a < b" and al: "a < length xs"
  have "b - a = Suc (b - Suc a)" using ab by simp
  then have "take (b - a) (drop a xs) = take (Suc (b - Suc a)) (xs ! a # drop (Suc a) xs)"
    using al by (simp add: Cons_nth_drop_Suc)
  then show ?thesis by (simp add: slice_arr_def)
qed

lemma slice_arr_join:
  assumes "a \<le> m" "m \<le> e"
  shows "slice_arr xs a m @ slice_arr xs m e = slice_arr xs a e"
proof -
  have "take (m - a + (e - m)) (drop a xs)
          = take (m - a) (drop a xs) @ take (e - m) (drop (m - a) (drop a xs))"
    by (rule take_add)
  with assms show ?thesis by (simp add: slice_arr_def)
qed

lemma tiles_concat:
  "tiles a ss b \<Longrightarrow> 0 \<le> a \<Longrightarrow>
     concat (map (sectionLines lines) ss) = slice_arr lines (nat a) (nat (b + 1))"
proof (induction ss arbitrary: a)
  case Nil
  then show ?case by (simp add: slice_arr_empty)
next
  case (Cons s ss)
  from Cons.prems have s: "lineStart s = a" "a \<le> lineEnd s" and t: "tiles (lineEnd s + 1) ss b"
    by auto
  have ih: "concat (map (sectionLines lines) ss) = slice_arr lines (nat (lineEnd s + 1)) (nat (b + 1))"
    using Cons.IH [OF t] s Cons.prems(2) by simp
  have m: "nat (lineEnd s) + 1 = nat (lineEnd s + 1)" using s Cons.prems(2) by simp
  have "nat a \<le> nat (lineEnd s + 1)" "nat (lineEnd s + 1) \<le> nat (b + 1)"
    using s tiles_le [OF t] by auto
  then have "slice_arr lines (nat a) (nat (lineEnd s + 1)) @
               slice_arr lines (nat (lineEnd s + 1)) (nat (b + 1))
             = slice_arr lines (nat a) (nat (b + 1))"
    by (rule slice_arr_join)
  moreover have "sectionLines lines s = slice_arr lines (nat a) (nat (lineEnd s + 1))"
    using m by (simp add: sectionLines_def s(1))
  ultimately show ?case by (simp add: ih)
qed

lemma sectionLines_split:
  assumes "sectionOk lines s"
  shows "sectionLines lines s =
           lines ! nat (lineStart s) # slice_arr lines (nat (lineStart s) + 1) (nat (lineEnd s) + 1)"
proof -
  from assms have "nat (lineStart s) < nat (lineEnd s) + 1" "nat (lineStart s) < length lines"
    by (auto simp: sectionOk_def)
  then show ?thesis
    unfolding sectionLines_def by (simp add: slice_arr_Cons)
qed


lemma extractSections_concat:
  "concat (map (sectionLines (splitOn LF markdown)) (extractSections markdown))
     = dropWhile notHeading (splitOn LF markdown)"
proof -
  let ?lines = "splitOn LF markdown"
  have "length ?lines \<noteq> 0" by (simp add: splitOn_not_Nil)
  then have n: "nat (int (length ?lines) - 1 + 1) = length ?lines" by simp
  have "concat (map (sectionLines ?lines) (extractSections markdown))
          = slice_arr ?lines (firstHeadingIndex ?lines) (length ?lines)"
    using tiles_concat [OF extractSections_inv(1) [of markdown], of ?lines] n by simp
  also have "\<dots> = drop (firstHeadingIndex ?lines) ?lines"
    by (simp add: slice_arr_def)
  also have "\<dots> = dropWhile notHeading ?lines"
    by (simp add: firstHeadingIndex_def dropWhile_eq_drop)
  finally show ?thesis .
qed

subsection \<open>parseMarkdown splits the document into the same sections\<close>

lemma sameState_step:
  assumes "sameState toLowerCase st pst"
  shows "sameState toLowerCase (sectionsStep i l st) (parseStep toLowerCase l pst)"
proof -
  obtain secs cur where st: "st = (secs, cur)" by (cases st)
  obtain dsecs ttl dcur where pst: "pst = (dsecs, ttl, dcur)" by (cases pst)
  show ?thesis
    using assms unfolding st pst
    by (cases cur; cases dcur; cases "headingMatch l")
       (auto simp: sameState_def sectionsStep_def parseStep_def Let_def sameSection_def
                   closeSection_def pushSection_def list_all2_appendI)
qed

lemma sameState_loop:
  "sameState toLowerCase st pst \<Longrightarrow>
   sameState toLowerCase (sectionsLoop lines i st) (fold (parseStep toLowerCase) lines pst)"
proof (induction lines arbitrary: i st pst)
  case Nil
  then show ?case by simp
next
  case (Cons l lines)
  have "sameState toLowerCase (sectionsStep i l st) (parseStep toLowerCase l pst)"
    using Cons.prems by (rule sameState_step)
  then show ?case using Cons.IH by simp
qed

lemma sameState_finish:
  assumes "sameState toLowerCase st pst"
  shows "list_all2 (sameSection toLowerCase) (sectionsFinish n st)
           (parsed_sections (parseFinish toLowerCase pst))"
proof -
  obtain secs cur where st: "st = (secs, cur)" by (cases st)
  obtain dsecs ttl dcur where pst: "pst = (dsecs, ttl, dcur)" by (cases pst)
  show ?thesis
    using assms unfolding st pst
    by (cases cur; cases dcur)
       (auto simp: sameState_def sectionsFinish_def parseFinish_def sameSection_def
                   closeSection_def pushSection_def list_all2_appendI)
qed

lemma parseMarkdown_sections:
  "list_all2 (sameSection toLowerCase) (extractSections markdown)
     (parsed_sections (parseMarkdown toLowerCase markdown))"
proof -
  have "sameState toLowerCase ([], None) ([], [], None)" by (simp add: sameState_def)
  then show ?thesis
    unfolding extractSections_def parseMarkdown_def Let_def
    by (intro sameState_finish sameState_loop)
qed

text \<open>
  C6. For every markdown input: the lines of the input joined by line feeds are the input;
  the sections of \<open>extractSections\<close>, each taken as its heading line followed by its content
  lines, give in order exactly the lines of the input from the first heading line on (so
  rejoining them reproduces the input minus the text before the first heading); in each
  section the first of these lines is the heading line its level and title were read from
  and the others, none of them a heading, joined by line feeds are its content; and
  \<open>parseMarkdown\<close> of the indexer returns the same sections (level, title and content), in
  the same order, whatever the lower-casing of the host is.
\<close>

theorem sections_partition:
  "joinWith LF (splitOn LF markdown) = markdown \<and>
   concat (map (sectionLines (splitOn LF markdown)) (extractSections markdown))
     = dropWhile notHeading (splitOn LF markdown) \<and>
   joinWith LF (concat (map (sectionLines (splitOn LF markdown)) (extractSections markdown)))
     = joinWith LF (dropWhile notHeading (splitOn LF markdown)) \<and>
   (\<forall>s \<in> set (extractSections markdown).
      sectionLines (splitOn LF markdown) s =
        (splitOn LF markdown ! nat (lineStart s)) #
        slice_arr (splitOn LF markdown) (nat (lineStart s) + 1) (nat (lineEnd s) + 1) \<and>
      map_option (\<lambda>(g1, g2). (length g1, trim g2))
                 (headingMatch (splitOn LF markdown ! nat (lineStart s)))
        = Some (level s, title s) \<and>
      content s =
        joinWith LF (slice_arr (splitOn LF markdown) (nat (lineStart s) + 1) (nat (lineEnd s) + 1)) \<and>
      (\<forall>l \<in> set (slice_arr (splitOn LF markdown) (nat (lineStart s) + 1) (nat (lineEnd s) + 1)).
         headingMatch l = None)) \<and>
   list_all2 (sameSection toLowerCase) (extractSections markdown)
     (parsed_sections (parseMarkdown toLowerCase markdown))"
proof -
  have per: "sectionLines (splitOn LF markdown) s =
        (splitOn LF markdown ! nat (lineStart s)) #
        slice_arr (splitOn LF markdown) (nat (lineStart s) + 1) (nat (lineEnd s) + 1) \<and>
      map_option (\<lambda>(g1, g2). (length g1, trim g2))
                 (headingMatch (splitOn LF markdown ! nat (lineStart s)))
        = Some (level s, title s) \<and>
      content s =
        joinWith LF (slice_arr (splitOn LF markdown) (nat (lineStart s) + 1) (nat (lineEnd s) + 1)) \<and>
      (\<forall>l \<in> set (slice_arr (splitOn LF markdown) (nat (lineStart s) + 1) (nat (lineEnd s) + 1)).
         headingMatch l = None)"
    if "s \<in> set (extractSections markdown)" for s
  proof -
    have ok: "sectionOk (splitOn LF markdown) s"
      using that by (rule extractSections_inv(2))
    show ?thesis
      using sectionLines_split [OF ok] ok
      by (simp add: sectionOk_def notHeading_def)
  qed
  show ?thesis
    using joinWith_splitOn [of LF markdown] extractSections_concat [of markdown]
      parseMarkdown_sections [of toLowerCase markdown] per
    by simp
qed

theorem sections_partition_witness:
  "extractSections (js ''intro\<newline># A\<newline>text\<newline>## B'') \<noteq> [] \<and>
   sectionLines (splitOn LF (js ''intro\<newline># A\<newline>text\<newline>## B''))
                (hd (extractSections (js ''intro\<newline># A\<newline>text\<newline>## B'')))
     = [js ''# A'', js ''text''] \<and>
   content (hd (extractSections (js ''intro\<newline># A\<newline>text\<newline>## B''))) = js ''text'' \<and>
   concat (map (sectionLines (splitOn LF (js ''intro\<newline># A\<newline>text\<newline>## B'')))
               (extractSections (js ''intro\<newline># A\<newline>text\<newline>## B'')))
     = [js ''# A'', js ''text'', js ''## B'']"
proof -
  let ?m = "js ''intro\<newline># A\<newline>text\<newline>## B''"
  have ne: "extractSections ?m \<noteq> []" by code_simp
  then have mem: "hd (extractSections ?m) \<in> set (extractSections ?m)" by simp
  have l: "splitOn LF ?m ! nat (lineStart (hd (extractSections ?m))) = js ''# A''" by code_simp
  have b: "slice_arr (splitOn LF ?m) (nat (lineStart (hd (extractSections ?m))) + 1)
             (nat (lineEnd (hd (extractSections ?m))) + 1) = [js ''text'']" by code_simp
  have d: "dropWhile notHeading (splitOn LF ?m) = [js ''# A'', js ''text'', js ''## B'']"
    by code_simp
  show ?thesis
    using sections_partition [of ?m] ne mem l b d by simp
qed

section \<open>Properties of generateAnchor\<close>

lemma hyphen_not_space: "\<not> isSpace HYPHEN"
  by (simp add: isSpace_def HYPHEN_def)

lemma isHyphen_HYPHEN: "isHyphen HYPHEN"
  by (simp add: isHyphen_def)

lemma space_not_hyphen: "isSpace c \<Longrightarrow> \<not> isHyphen c"
  using hyphen_not_space by (auto simp: isHyphen_def)

lemma set_replaceRuns: "set (replaceRuns p r s) \<subseteq> set r \<union> {c \<in> set s. \<not> p c}"
proof (induction p r s rule: replaceRuns.induct)
  case (1 p r)
  show ?case by simp
next
  case (2 p r c cs)
  show ?case
  proof (cases "p c")
    case True
    have "set (dropWhile p cs) \<subseteq> set cs" by (auto dest: set_dropWhileD)
    with 2(1) [OF True] True show ?thesis by auto
  next
    case False
    with 2(2) [OF False] show ?thesis by auto
  qed
qed

lemma trim_no_space: "\<forall>c \<in> set s. \<not> isSpace c \<Longrightarrow> trim s = s"
proof -
  assume a: "\<forall>c \<in> set s. \<not> isSpace c"
  have 1: "dropWhile isSpace s = s" using a by (cases s) auto
  have 2: "dropWhile isSpace (rev s) = rev s" using a by (cases "rev s") (auto simp: in_set_conv_decomp)
  show ?thesis by (simp add: trim_def 1 2)
qed

lemma dropWhile_space_union:
  "dropWhile isSpaceOrHyphen (dropWhile isSpace s) = dropWhile isSpaceOrHyphen s"
  by (induction s) (auto simp: isSpaceOrHyphen_def)

lemma collapse_two_pass_aux:
  "replaceRuns isHyphen [HYPHEN] (replaceRuns isSpace [HYPHEN] s)
     = replaceRuns isSpaceOrHyphen [HYPHEN] s \<and>
   replaceRuns isHyphen [HYPHEN] (dropWhile isHyphen (replaceRuns isSpace [HYPHEN] s))
     = replaceRuns isSpaceOrHyphen [HYPHEN] (dropWhile isSpaceOrHyphen s)"
proof (induction s rule: length_induct)
  case (1 s)
  let ?RH = "replaceRuns isHyphen [HYPHEN]" and ?RS = "replaceRuns isSpace [HYPHEN]"
    and ?RU = "replaceRuns isSpaceOrHyphen [HYPHEN]"
  show ?case
  proof (cases s)
    case Nil
    then show ?thesis by simp
  next
    case (Cons c cs)
    have ih_cs: "?RH (?RS cs) = ?RU cs"
      "?RH (dropWhile isHyphen (?RS cs)) = ?RU (dropWhile isSpaceOrHyphen cs)"
      using 1 Cons by simp_all
    have "length (dropWhile isSpace cs) < length s"
      using Cons length_dropWhile_le [of isSpace cs] by simp
    then have ih_dw: "?RH (dropWhile isHyphen (?RS (dropWhile isSpace cs)))
                       = ?RU (dropWhile isSpaceOrHyphen (dropWhile isSpace cs))"
      using 1 by blast
    consider (sp) "isSpace c" | (hy) "\<not> isSpace c" "isHyphen c" | (other) "\<not> isSpace c" "\<not> isHyphen c"
      by blast
    then show ?thesis
    proof cases
      case sp
      then have u: "isSpaceOrHyphen c" by (simp add: isSpaceOrHyphen_def)
      show ?thesis
        using sp u ih_dw space_not_hyphen [OF sp]
        by (simp add: Cons dropWhile_space_union isHyphen_HYPHEN)
    next
      case hy
      then have u: "isSpaceOrHyphen c" and c: "c = HYPHEN" by (simp_all add: isSpaceOrHyphen_def isHyphen_def)
      show ?thesis
        using hy u ih_cs by (simp add: Cons c isHyphen_HYPHEN hyphen_not_space)
    next
      case other
      then have u: "\<not> isSpaceOrHyphen c" by (simp add: isSpaceOrHyphen_def)
      show ?thesis
        using other u ih_cs by (simp add: Cons)
    qed
  qed
qed

lemma generateAnchor_eq:
  "generateAnchor toLowerCase t = replaceRuns isSpaceOrHyphen [HYPHEN] (filter anchorKeeps (toLowerCase t))"
proof -
  let ?s = "filter anchorKeeps (toLowerCase t)"
  have "\<forall>c \<in> set (replaceRuns isSpaceOrHyphen [HYPHEN] ?s). \<not> isSpace c"
    using set_replaceRuns [of isSpaceOrHyphen "[HYPHEN]" ?s] hyphen_not_space
    by (auto simp: isSpaceOrHyphen_def)
  then show ?thesis
    by (simp add: generateAnchor_def collapse_two_pass_aux trim_no_space)
qed

lemma replaceRuns_after_run:
  assumes "p r"
  shows "replaceRuns p [r] (dropWhile p s) = [] \<or> hd (replaceRuns p [r] (dropWhile p s)) \<noteq> r"
proof (cases "dropWhile p s")
  case Nil
  show ?thesis unfolding Nil by simp
next
  case (Cons c cs)
  have "\<not> p c" using hd_dropWhile [of p s] Cons by auto
  with assms have "c \<noteq> r" by auto
  with \<open>\<not> p c\<close> show ?thesis unfolding Cons by simp
qed

lemma replaceRuns_no_double:
  assumes "p r"
  shows "\<not> sublist [r, r] (replaceRuns p [r] s)"
  using assms
proof (induction p "[r]" s rule: replaceRuns.induct)
  case (1 p)
  show ?case by simp
next
  case (2 p c cs)
  show ?case
  proof (cases "p c")
    case True
    from "2.prems" have pr: "p r" .
    have ih: "\<not> sublist [r, r] (replaceRuns p [r] (dropWhile p cs))"
      using "2.hyps"(1) [OF True pr] .
    have "\<not> prefix [r] (replaceRuns p [r] (dropWhile p cs))"
      using replaceRuns_after_run [of p r cs] pr
      by (cases "replaceRuns p [r] (dropWhile p cs)") auto
    with ih True show ?thesis by (simp add: sublist_Cons_right)
  next
    case False
    from "2.prems" have pr: "p r" .
    have "c \<noteq> r" using False pr by auto
    with "2.hyps"(2) [OF False pr] False show ?thesis by (simp add: sublist_Cons_right)
  qed
qed

lemma filter_replaceRuns:
  assumes "\<And>c. p c \<Longrightarrow> \<not> q c" and "filter q r = []"
  shows "filter q (replaceRuns p r s) = filter q s"
  using assms
proof (induction p r s rule: replaceRuns.induct)
  case (1 p r)
  show ?case by simp
next
  case (2 p r c cs)
  show ?case
  proof (cases "p c")
    case True
    have dw: "filter q (dropWhile p cs) = filter q cs"
      using "2.prems"(1) by (induction cs) auto
    show ?thesis
      using "2.IH"(1) [OF True "2.prems"] True "2.prems"(1) [OF True] "2.prems"(2) dw by simp
  next
    case False
    show ?thesis
      using "2.IH"(2) [OF False "2.prems"] False by simp
  qed
qed

lemma word_not_space: "isWord c \<Longrightarrow> \<not> isSpace c"
  by (auto simp: isWord_def isAlnum_def isLetter_def isLower_def isUpper_def isDigit_def isSpace_def
      word_le_nat_alt)

lemma word_not_hyphen: "isWord c \<Longrightarrow> \<not> isHyphen c"
  by (auto simp: isWord_def isAlnum_def isLetter_def isLower_def isUpper_def isDigit_def
      isHyphen_def HYPHEN_def word_le_nat_alt)

text \<open>
  C4 as stated fails: a run of hyphens inside the title is collapsed to one hyphen, which
  the wording (only white-space runs are collapsed) does not do.
\<close>

theorem generateAnchor_counterexample:
  "generateAnchor toLowerCaseLatin1 (js ''a--b'') = js ''a-b'' \<and> anchorAsClaimed toLowerCaseLatin1 (js ''a--b'') = js ''a--b'' \<and>
   generateAnchor toLowerCaseLatin1 (js ''a--b'') \<noteq> anchorAsClaimed toLowerCaseLatin1 (js ''a--b'')"
  by code_simp

text \<open>
  C4, amended. For every heading title: up to hyphens at its two ends, the anchor is the
  title lowercased, with every character that is not a word character, white space or a
  hyphen removed, and every maximal run of white space and hyphens (mixed runs included)
  collapsed to a single hyphen. The anchor consists of word characters and hyphens only, it
  never has two hyphens in a row, and its word characters are those of the lowercased
  title, in order. This holds for every lower-casing function, so for the one of the host.
\<close>

theorem generateAnchor_collapses_runs:
  "trimHyphens (generateAnchor toLowerCase t) =
     trimHyphens (replaceRuns isSpaceOrHyphen [HYPHEN] (filter anchorKeeps (toLowerCase t))) \<and>
   (\<forall>c \<in> set (generateAnchor toLowerCase t). isWord c \<or> c = HYPHEN) \<and>
   \<not> sublist [HYPHEN, HYPHEN] (generateAnchor toLowerCase t) \<and>
   filter isWord (generateAnchor toLowerCase t) = filter isWord (toLowerCase t)"
proof -
  let ?s = "filter anchorKeeps (toLowerCase t)"
  note eq = generateAnchor_eq [of toLowerCase t]
  have u: "isSpaceOrHyphen HYPHEN" by (simp add: isSpaceOrHyphen_def isHyphen_HYPHEN)
  have cls: "\<forall>c \<in> set (generateAnchor toLowerCase t). isWord c \<or> c = HYPHEN"
    using set_replaceRuns [of isSpaceOrHyphen "[HYPHEN]" ?s]
    unfolding eq by (auto simp: isSpaceOrHyphen_def anchorKeeps_def isHyphen_def)
  have dbl: "\<not> sublist [HYPHEN, HYPHEN] (generateAnchor toLowerCase t)"
    unfolding eq using u by (rule replaceRuns_no_double)
  have "filter isWord (generateAnchor toLowerCase t) = filter isWord ?s"
    unfolding eq
    by (rule filter_replaceRuns)
       (auto simp: isSpaceOrHyphen_def isHyphen_HYPHEN dest: word_not_space word_not_hyphen)
  also have "\<dots> = filter isWord (toLowerCase t)"
  proof -
    have "(\<lambda>x. anchorKeeps x \<and> isWord x) = isWord"
      by (auto simp: anchorKeeps_def)
    then show ?thesis by simp
  qed
  finally show ?thesis using cls dbl by (simp add: eq)
qed

theorem generateAnchor_collapses_runs_witness:
  "generateAnchor toLowerCaseLatin1 (js ''Pay - API (v1)!'') = js ''pay-api-v1'' \<and>
   set (generateAnchor toLowerCaseLatin1 (js ''Pay - API (v1)!'')) \<noteq> {} \<and>
   filter isWord (toLowerCaseLatin1 (js ''Pay - API (v1)!'')) = filter isWord (js ''pay-api-v1'')"
proof -
  have g: "generateAnchor toLowerCaseLatin1 (js ''Pay - API (v1)!'') = js ''pay-api-v1''" by code_simp
  have ne: "set (js ''pay-api-v1'') \<noteq> {}" by (simp add: js_def)
  show ?thesis
    using generateAnchor_collapses_runs [of toLowerCaseLatin1 "js ''Pay - API (v1)!''"] ne
    unfolding g by simp
qed

section \<open>Properties of searchDocuments\<close>

lemma includes_str_sublist: "includes_str s q \<longleftrightarrow> sublist q s"
  by (induction s) (auto simp: sublist_Cons_right)

lemma includes_str_empty: "includes_str s []"
  by (simp add: includes_str_sublist)

lemma fold_searchStep:
  "fold (searchStep toLowerCase lq) docs acc =
     acc @ map (\<lambda>d. (d, docScore toLowerCase lq d)) (filter (\<lambda>d. 0 < docScore toLowerCase lq d) docs)"
  by (induction docs arbitrary: acc) (auto simp: searchStep_def Let_def)

lemma mset_insertBy: "mset (insertBy cmp x ys) = add_mset x (mset ys)"
  by (induction ys) auto

lemma mset_sortBy: "mset (sortBy cmp xs) = mset xs"
  by (induction xs) (auto simp: sortBy_def mset_insertBy)

lemma set_insertBy: "set (insertBy cmp x ys) = insert x (set ys)"
  by (induction ys) auto

lemma sorted_insertBy:
  "sorted_wrt (\<lambda>a b. snd b \<le> snd a) ys \<Longrightarrow>
   sorted_wrt (\<lambda>a b. snd b \<le> snd a) (insertBy byScoreDesc x ys)"
  by (induction ys) (auto simp: set_insertBy byScoreDesc_def)

lemma sorted_sortBy: "sorted_wrt (\<lambda>a b. snd b \<le> snd a) (sortBy byScoreDesc xs)"
proof (induction xs)
  case Nil
  show ?case by (simp add: sortBy_def)
next
  case (Cons x xs)
  then show ?case using sorted_insertBy [of "sortBy byScoreDesc xs" x] by (simp add: sortBy_def)
qed

lemma docScore_sum:
  "docScore toLowerCase lq d =
     (if includes_str (toLowerCase (doc_title d)) lq then 10 else 0) +
     (if includes_str (toLowerCase (fileName d)) lq then 5 else 0) +
     int (length (filter (\<lambda>k. includes_str k lq) (doc_keywords d))) +
     (if includes_str (toLowerCase (doc_content d)) lq then 1 else 0)"
  by (simp add: docScore_def Let_def)

lemma docScore_nonneg: "0 \<le> docScore toLowerCase lq d"
  by (simp add: docScore_sum)

text \<open>The scored results before the final projection: the sorted array \<open>results\<close>.\<close>

lemma search_results:
  fixes toLowerCase idx query
  defines "res \<equiv> sortBy byScoreDesc (fold (searchStep toLowerCase (toLowerCase query)) (index_values idx) [])"
  shows "searchDocuments toLowerCase idx query = map fst res"
    and "mset res = mset (map (\<lambda>d. (d, docScore toLowerCase (toLowerCase query) d))
                           (filter (\<lambda>d. 0 < docScore toLowerCase (toLowerCase query) d) (index_values idx)))"
    and "sorted_wrt (\<lambda>a b. snd b \<le> snd a) res"
    and "\<forall>r \<in> set res. snd r = docScore toLowerCase (toLowerCase query) (fst r)"
proof -
  show "searchDocuments toLowerCase idx query = map fst res"
    by (simp add: searchDocuments_def res_def Let_def)
  show m: "mset res = mset (map (\<lambda>d. (d, docScore toLowerCase (toLowerCase query) d))
                           (filter (\<lambda>d. 0 < docScore toLowerCase (toLowerCase query) d) (index_values idx)))"
    by (simp add: res_def mset_sortBy fold_searchStep)
  show "sorted_wrt (\<lambda>a b. snd b \<le> snd a) res"
    unfolding res_def by (rule sorted_sortBy)
  have "set res = set (map (\<lambda>d. (d, docScore toLowerCase (toLowerCase query) d))
                           (filter (\<lambda>d. 0 < docScore toLowerCase (toLowerCase query) d) (index_values idx)))"
    using m by (metis set_mset_mset)
  then show "\<forall>r \<in> set res. snd r = docScore toLowerCase (toLowerCase query) (fst r)"
    by auto
qed

lemma searchDocuments_mset:
  "mset (searchDocuments toLowerCase idx query) =
     filter_mset (\<lambda>d. 0 < docScore toLowerCase (toLowerCase query) d) (mset (index_values idx))"
proof -
  let ?res = "sortBy byScoreDesc (fold (searchStep toLowerCase (toLowerCase query)) (index_values idx) [])"
  have "mset (map fst ?res) = image_mset fst (mset ?res)" by simp
  also have "\<dots> = image_mset fst (mset (map (\<lambda>d. (d, docScore toLowerCase (toLowerCase query) d))
                           (filter (\<lambda>d. 0 < docScore toLowerCase (toLowerCase query) d) (index_values idx))))"
    by (simp only: search_results(2))
  also have "\<dots> = filter_mset (\<lambda>d. 0 < docScore toLowerCase (toLowerCase query) d) (mset (index_values idx))"
    by (simp add: image_mset.compositionality comp_def)
  finally show ?thesis by (simp add: search_results(1))
qed

lemma searchDocuments_sorted:
  "sorted_wrt (\<lambda>a b. docScore toLowerCase (toLowerCase query) b \<le> docScore toLowerCase (toLowerCase query) a)
              (searchDocuments toLowerCase idx query)"
proof -
  let ?lq = "toLowerCase query"
  let ?res = "sortBy byScoreDesc (fold (searchStep toLowerCase ?lq) (index_values idx) [])"
  have s: "sorted_wrt (\<lambda>a b. snd b \<le> snd a) ?res" by (rule search_results(3))
  have e: "\<forall>r \<in> set ?res. snd r = docScore toLowerCase ?lq (fst r)" by (rule search_results(4))
  have "sorted_wrt (\<lambda>a b. docScore toLowerCase ?lq (fst b) \<le> docScore toLowerCase ?lq (fst a)) ?res"
  proof (rule sorted_wrt_mono_rel [OF _ s])
    fix a b
    assume "a \<in> set ?res" "b \<in> set ?res" "snd b \<le> snd a"
    with e show "docScore toLowerCase ?lq (fst b) \<le> docScore toLowerCase ?lq (fst a)" by simp
  qed
  then have "sorted_wrt (\<lambda>a b. docScore toLowerCase ?lq b \<le> docScore toLowerCase ?lq a) (map fst ?res)"
    by (simp only: sorted_wrt_map)
  then show ?thesis
    by (simp only: search_results(1))
qed

text \<open>
  C1. For every index and every query, with \<open>lq\<close> the lower-cased query: the score of a
  document is the sum of 10 if its lower-cased title contains \<open>lq\<close>, 5 if its lower-cased
  file name does, the number of its keywords that contain \<open>lq\<close>, and 1 if its lower-cased
  content does; the result holds exactly the indexed documents whose score is positive
  (with their multiplicity), so every document of score 0 is excluded; and the result is
  ordered by non-increasing score. The lower-casing is the one of the host, whatever it is.
\<close>

theorem searchDocuments_scoring:
  "(\<forall>d. docScore toLowerCase (toLowerCase query) d =
          (if includes_str (toLowerCase (doc_title d)) (toLowerCase query) then 10 else 0) +
          (if includes_str (toLowerCase (fileName d)) (toLowerCase query) then 5 else 0) +
          int (length (filter (\<lambda>k. includes_str k (toLowerCase query)) (doc_keywords d))) +
          (if includes_str (toLowerCase (doc_content d)) (toLowerCase query) then 1 else 0)) \<and>
   mset (searchDocuments toLowerCase idx query) =
     filter_mset (\<lambda>d. 0 < docScore toLowerCase (toLowerCase query) d) (mset (index_values idx)) \<and>
   (\<forall>d \<in> set (index_values idx).
      docScore toLowerCase (toLowerCase query) d = 0 \<longrightarrow> d \<notin> set (searchDocuments toLowerCase idx query)) \<and>
   (\<forall>d \<in> set (index_values idx).
      docScore toLowerCase (toLowerCase query) d \<noteq> 0 \<longrightarrow> d \<in> set (searchDocuments toLowerCase idx query)) \<and>
   sorted_wrt (\<lambda>a b. docScore toLowerCase (toLowerCase query) b \<le> docScore toLowerCase (toLowerCase query) a)
              (searchDocuments toLowerCase idx query)"
proof -
  let ?lq = "toLowerCase query"
  have m: "mset (searchDocuments toLowerCase idx query) =
             filter_mset (\<lambda>d. 0 < docScore toLowerCase ?lq d) (mset (index_values idx))"
    by (rule searchDocuments_mset)
  have s: "set (searchDocuments toLowerCase idx query) = {d \<in> set (index_values idx). 0 < docScore toLowerCase ?lq d}"
    using arg_cong [OF m, of set_mset] by simp
  have pos: "\<And>d. docScore toLowerCase ?lq d \<noteq> 0 \<Longrightarrow> 0 < docScore toLowerCase ?lq d"
    using docScore_nonneg [of toLowerCase ?lq] by (simp add: order.strict_iff_order)
  show ?thesis
    using m s pos docScore_sum [of toLowerCase ?lq] searchDocuments_sorted [of toLowerCase query idx]
    by auto
qed

theorem searchDocuments_scoring_witness:
  "mkDoc ''README.md'' ''README.md'' ''# Guide\<newline>see the payment page'' \<in> set (index_values exampleIndex) \<and>
   docScore toLowerCaseLatin1 (toLowerCaseLatin1 (js ''Api''))
     (mkDoc ''README.md'' ''README.md'' ''# Guide\<newline>see the payment page'') = 0 \<and>
   mkDoc ''README.md'' ''README.md'' ''# Guide\<newline>see the payment page''
     \<notin> set (searchDocuments toLowerCaseLatin1 exampleIndex (js ''Api'')) \<and>
   mkDoc ''api/pay.md'' ''pay.md'' ''# Payment API\<newline>approve a payment'' \<in> set (index_values exampleIndex) \<and>
   docScore toLowerCaseLatin1 (toLowerCaseLatin1 (js ''Api''))
     (mkDoc ''api/pay.md'' ''pay.md'' ''# Payment API\<newline>approve a payment'') = 12 \<and>
   mkDoc ''api/pay.md'' ''pay.md'' ''# Payment API\<newline>approve a payment''
     \<in> set (searchDocuments toLowerCaseLatin1 exampleIndex (js ''Api'')) \<and>
   accentDoc \<in> set (index_values accentIndex) \<and>
   docScore toLowerCaseLatin1 (toLowerCaseLatin1 [0xE9]) accentDoc = 11 \<and>
   searchDocuments toLowerCaseLatin1 accentIndex [0xE9] = [accentDoc]"
proof -
  let ?r = "mkDoc ''README.md'' ''README.md'' ''# Guide\<newline>see the payment page''"
  let ?p = "mkDoc ''api/pay.md'' ''pay.md'' ''# Payment API\<newline>approve a payment''"
  have mem: "?r \<in> set (index_values exampleIndex)" "?p \<in> set (index_values exampleIndex)"
    by (simp_all add: exampleIndex_def index_values_def)
  have r0: "docScore toLowerCaseLatin1 (toLowerCaseLatin1 (js ''Api'')) ?r = 0" by code_simp
  have p12: "docScore toLowerCaseLatin1 (toLowerCaseLatin1 (js ''Api'')) ?p = 12" by code_simp
  have amem: "accentDoc \<in> set (index_values accentIndex)"
    and vals: "index_values accentIndex = [accentDoc]"
    by (simp_all add: accentIndex_def index_values_def)
  have a11: "docScore toLowerCaseLatin1 (toLowerCaseLatin1 [0xE9]) accentDoc = 11" by code_simp
  have "mset (searchDocuments toLowerCaseLatin1 accentIndex [0xE9]) = {#accentDoc#}"
    using searchDocuments_scoring [of toLowerCaseLatin1 "[0xE9]" accentIndex] a11 vals by simp
  then have acc: "searchDocuments toLowerCaseLatin1 accentIndex [0xE9] = [accentDoc]"
    by (simp only: mset_single_iff_right [symmetric])
  show ?thesis
    using searchDocuments_scoring [of toLowerCaseLatin1 "js ''Api''" exampleIndex] mem r0 p12
      amem a11 acc
    by simp
qed

section \<open>The empty query\<close>

lemma docScore_empty_query: "16 \<le> docScore toLowerCase [] d"
  by (simp add: docScore_sum includes_str_empty)

lemma searchDocuments_empty_mset:
  assumes "toLowerCase [] = []"
  shows "mset (searchDocuments toLowerCase idx []) = mset (index_values idx)"
proof -
  have pos: "0 < docScore toLowerCase [] d" for d
    using docScore_empty_query [of toLowerCase d] by linarith
  show ?thesis by (simp add: searchDocuments_mset assms pos)
qed

lemma toLowerCaseLatin1_Nil: "toLowerCaseLatin1 [] = []"
  by (simp add: toLowerCaseLatin1_def)

text \<open>
  C2 as stated fails: on the two-document example index the empty query returns
  documents.
\<close>

theorem searchDocuments_empty_query_counterexample:
  "exampleIndex \<noteq> [] \<and> searchDocuments toLowerCaseLatin1 exampleIndex [] \<noteq> []"
proof -
  have "size (mset (searchDocuments toLowerCaseLatin1 exampleIndex [])) = 2"
    by (simp only: searchDocuments_empty_mset [of toLowerCaseLatin1, OF toLowerCaseLatin1_Nil])
       (simp add: exampleIndex_def index_values_def)
  then have "searchDocuments toLowerCaseLatin1 exampleIndex [] \<noteq> []" by auto
  then show ?thesis by (simp add: exampleIndex_def)
qed

text \<open>
  C2, amended. The empty string is contained in every string, so with the empty query every
  document scores at least 16 (title, file name and content all match, and so does every
  keyword): \<open>searchDocuments\<close> returns every indexed document, ordered by non-increasing
  score, and on a non-empty index the result is not empty. Of the lower-casing of the host
  this uses only that it maps the empty string to the empty string.
\<close>

theorem searchDocuments_empty_query:
  assumes "toLowerCase [] = []"
  shows "(\<forall>d. 16 \<le> docScore toLowerCase (toLowerCase []) d) \<and>
   mset (searchDocuments toLowerCase idx []) = mset (index_values idx) \<and>
   length (searchDocuments toLowerCase idx []) = length idx \<and>
   sorted_wrt (\<lambda>a b. docScore toLowerCase (toLowerCase []) b \<le> docScore toLowerCase (toLowerCase []) a)
              (searchDocuments toLowerCase idx []) \<and>
   (idx \<noteq> [] \<longrightarrow> searchDocuments toLowerCase idx [] \<noteq> [])"
proof -
  have m: "mset (searchDocuments toLowerCase idx []) = mset (index_values idx)"
    using assms by (rule searchDocuments_empty_mset)
  have l: "length (searchDocuments toLowerCase idx []) = length idx"
    using arg_cong [OF m, of size] by (simp add: index_values_def)
  show ?thesis
    using m l docScore_empty_query [of toLowerCase] searchDocuments_sorted [of toLowerCase "[]" idx]
    by (auto simp: assms)
qed

theorem searchDocuments_empty_query_witness:
  "toLowerCaseLatin1 [] = [] \<and>
   exampleIndex \<noteq> [] \<and> searchDocuments toLowerCaseLatin1 exampleIndex [] \<noteq> [] \<and>
   length (searchDocuments toLowerCaseLatin1 exampleIndex []) = 2"
proof -
  have nil: "toLowerCaseLatin1 [] = []" by (simp add: toLowerCaseLatin1_def)
  have ne: "exampleIndex \<noteq> []" and len: "length exampleIndex = 2"
    by (simp_all add: exampleIndex_def)
  show ?thesis
    using searchDocuments_empty_query [of toLowerCaseLatin1 exampleIndex] nil ne len by simp
qed

section \<open>Properties of extractKeywords\<close>



subsection \<open>The title tokens\<close>

lemma splitRuns_not_Nil: "splitRuns p s \<noteq> []"
  by (induction p s rule: splitRuns.induct) (auto split: list.splits)





subsection \<open>The content tokens\<close>




lemma letter_alnum: "isLetter c \<Longrightarrow> isAlnum c"
  by (simp add: isAlnum_def)



lemma matchWords_skip:
  "\<not> isHangul c \<Longrightarrow> \<not> isLetter c \<Longrightarrow> matchWords (c # rest) = matchWords rest"
  by simp







section \<open>Properties of the table functions\<close>

lemma findIndex_Some_iff:
  "findIndex p xs = Some i \<longleftrightarrow> i < length xs \<and> p (xs ! i) \<and> (\<forall>j < i. \<not> p (xs ! j))"
proof (induction xs arbitrary: i)
  case Nil
  show ?case by simp
next
  case (Cons x xs)
  show ?case
  proof (cases "p x")
    case True
    then show ?thesis by (cases i) auto
  next
    case False
    show ?thesis
    proof (cases i)
      case 0
      with False show ?thesis by auto
    next
      case (Suc k)
      have "(\<forall>j < Suc k. \<not> p ((x # xs) ! j)) \<longleftrightarrow> (\<forall>j < k. \<not> p (xs ! j))"
        using False by (auto simp: less_Suc_eq_0_disj)
      with False Suc Cons.IH [of k] show ?thesis by auto
    qed
  qed
qed

lemma findIndex_None_iff: "findIndex p xs = None \<longleftrightarrow> (\<forall>x \<in> set xs. \<not> p x)"
  by (induction xs) auto

lemma fold_endpointStep:
  "fold (endpointStep a m e) rws acc =
     acc @ map (\<lambda>row. \<lparr> ep_api = cellAt row a, ep_method = cellAt row m, ep_endpoint = cellAt row e \<rparr>)
               (filter (\<lambda>row. cellAt row a \<noteq> [] \<and> cellAt row m \<noteq> [] \<and> cellAt row e \<noteq> []) rws)"
  by (induction rws arbitrary: acc) (simp_all add: endpointStep_def Let_def)

lemma tableEndpoints_append:
  "tableEndpoints toLowerCase t acc = acc @ tableEndpoints toLowerCase t []"
  by (simp add: tableEndpoints_def fold_endpointStep split: option.splits)

lemma fold_tableEndpoints:
  "fold (tableEndpoints toLowerCase) ts acc =
     acc @ concat (map (\<lambda>t. tableEndpoints toLowerCase t []) ts)"
proof (induction ts arbitrary: acc)
  case Nil
  show ?case by simp
next
  case (Cons t ts)
  show ?case
    using Cons.IH [of "tableEndpoints toLowerCase t acc"]
      tableEndpoints_append [of toLowerCase t acc]
    by simp
qed

text \<open>
  On the \<open>Table\<close> records the loop of \<open>extractAPIEndpoints\<close> does what its test says: a
  table with the three headers (\<open>a\<close>, \<open>m\<close>, \<open>e\<close> the first indexes of such headers)
  contributes one triple per row whose cells at the three indexes are present and
  non-empty, in row order, and a table without one of the three headers contributes
  nothing.
\<close>

lemma tableEndpoints_rows:
  "(findIndex (isApiHeader toLowerCase) (headers t) = Some a \<and>
    findIndex (isMethodHeader toLowerCase) (headers t) = Some m \<and>
    findIndex (isEndpointHeader toLowerCase) (headers t) = Some e \<longrightarrow>
      tableEndpoints toLowerCase t [] =
        map (\<lambda>row. \<lparr> ep_api = cellAt row a, ep_method = cellAt row m, ep_endpoint = cellAt row e \<rparr>)
            (filter (\<lambda>row. cellAt row a \<noteq> [] \<and> cellAt row m \<noteq> [] \<and> cellAt row e \<noteq> [])
                    (rows t))) \<and>
   (\<not> ((\<exists>h \<in> set (headers t). isApiHeader toLowerCase h) \<and>
        (\<exists>h \<in> set (headers t). isMethodHeader toLowerCase h) \<and>
        (\<exists>h \<in> set (headers t). isEndpointHeader toLowerCase h)) \<longrightarrow>
      tableEndpoints toLowerCase t [] = []) \<and>
   extractAPIEndpoints toLowerCase markdown =
     concat (map (\<lambda>t. tableEndpoints toLowerCase t []) (extractTables markdown))"
proof -
  have 1: "findIndex (isApiHeader toLowerCase) (headers t) = Some a \<and>
    findIndex (isMethodHeader toLowerCase) (headers t) = Some m \<and>
    findIndex (isEndpointHeader toLowerCase) (headers t) = Some e \<longrightarrow>
      tableEndpoints toLowerCase t [] =
        map (\<lambda>row. \<lparr> ep_api = cellAt row a, ep_method = cellAt row m, ep_endpoint = cellAt row e \<rparr>)
            (filter (\<lambda>row. cellAt row a \<noteq> [] \<and> cellAt row m \<noteq> [] \<and> cellAt row e \<noteq> [])
                    (rows t))"
    by (simp add: tableEndpoints_def fold_endpointStep)
  have ex: "(\<exists>h \<in> set xs. p h) \<longleftrightarrow> (\<exists>i. findIndex p xs = Some i)" for p and xs :: "jsstring list"
    using findIndex_None_iff [of p xs] by (cases "findIndex p xs") auto
  have 3: "\<not> ((\<exists>h \<in> set (headers t). isApiHeader toLowerCase h) \<and>
        (\<exists>h \<in> set (headers t). isMethodHeader toLowerCase h) \<and>
        (\<exists>h \<in> set (headers t). isEndpointHeader toLowerCase h)) \<longrightarrow>
      tableEndpoints toLowerCase t [] = []"
    unfolding ex by (auto simp: tableEndpoints_def split: option.splits)
  have 6: "extractAPIEndpoints toLowerCase markdown =
     concat (map (\<lambda>t. tableEndpoints toLowerCase t []) (extractTables markdown))"
    by (simp add: extractAPIEndpoints_def fold_tableEndpoints)
  show ?thesis
    using 1 3 6 by (intro conjI)
qed

text \<open>
  The tables that \<open>extractTables\<close> reads from a document never have an empty cell:
  \<open>parseTable\<close> drops the empty pieces of a line before it builds the cells.
\<close>

lemma fold_rowStep_cells:
  assumes "\<forall>row \<in> set acc. \<forall>cell \<in> set (cells row). cell_content cell \<noteq> []"
  shows "\<forall>row \<in> set (fold rowStep ls acc). \<forall>cell \<in> set (cells row). cell_content cell \<noteq> []"
  using assms
proof (induction ls arbitrary: acc)
  case Nil
  then show ?case by simp
next
  case (Cons l ls)
  have "\<forall>row \<in> set (rowStep l acc). \<forall>cell \<in> set (cells row). cell_content cell \<noteq> []"
    using Cons.prems by (auto simp: rowStep_def splitCells_def Let_def)
  then show ?case using Cons.IH by simp
qed

lemma parseTable_noEmptyCell: "parseTable txt = Some t \<Longrightarrow> noEmptyCell t"
  using fold_rowStep_cells [of "[]"]
  by (auto simp: parseTable_def Let_def noEmptyCell_def split: if_splits)

lemma pushTable_noEmptyCell:
  "\<forall>t \<in> set ts. noEmptyCell t \<Longrightarrow> \<forall>t \<in> set (pushTable cur ts). noEmptyCell t"
  by (auto simp: pushTable_def split: option.splits dest: parseTable_noEmptyCell)

lemma tablesStep_noEmptyCell:
  assumes "\<forall>t \<in> set (fst st). noEmptyCell t"
  shows "\<forall>t \<in> set (fst (tablesStep l st)). noEmptyCell t"
proof -
  obtain ts cur inT where st: "st = (ts, cur, inT)" by (cases st)
  show ?thesis
    using assms pushTable_noEmptyCell [of ts cur]
    unfolding st by (simp add: tablesStep_def)
qed

lemma fold_tablesStep_noEmptyCell:
  "\<forall>t \<in> set (fst st). noEmptyCell t \<Longrightarrow>
   \<forall>t \<in> set (fst (fold tablesStep ls st)). noEmptyCell t"
proof (induction ls arbitrary: st)
  case Nil
  then show ?case by simp
next
  case (Cons l ls)
  show ?case
    using Cons.IH [OF tablesStep_noEmptyCell [OF Cons.prems]] by simp
qed

lemma extractTables_noEmptyCell: "\<forall>t \<in> set (extractTables markdown). noEmptyCell t"
proof -
  obtain ts cur inT where f: "fold tablesStep (splitOn LF markdown) ([], [], False) = (ts, cur, inT)"
    by (cases "fold tablesStep (splitOn LF markdown) ([], [], False)")
  have "\<forall>t \<in> set (fst (fold tablesStep (splitOn LF markdown) ([], [], False))). noEmptyCell t"
    by (rule fold_tablesStep_noEmptyCell) simp
  then have ts: "\<forall>t \<in> set ts. noEmptyCell t" by (simp add: f)
  show ?thesis
    using ts pushTable_noEmptyCell [OF ts, of cur]
    by (simp add: extractTables_def f)
qed

text \<open>
  A document that is one table with the headers \<open>API\<close>, \<open>Method\<close>, \<open>Endpoint\<close> and one
  row of three non-empty cells gives exactly one triple.
\<close>

lemma extractAPIEndpoints_one_row:
  "extractAPIEndpoints toLowerCaseLatin1
     (js ''| API | Method | Endpoint |\<newline>|---|---|---|\<newline>| Pay | POST | /v1/pay |'')
     = [\<lparr> ep_api = js ''Pay'', ep_method = js ''POST'', ep_endpoint = js ''/v1/pay'' \<rparr>]"
  by code_simp

text \<open>
  C8. A row with an empty cell among the three relevant columns is not excluded. The
  test \<open>api && method && endpoint\<close> of \<open>extractAPIEndpoints\<close> never sees the empty cell,
  because \<open>parseTable\<close> has dropped it and the cells after it have moved one column to the
  left. In the table below the row has no method; the triple returned for it has the
  endpoint as its method and the note as its endpoint.
\<close>

theorem extractAPIEndpoints_empty_cell_shifts:
  "extractAPIEndpoints toLowerCaseLatin1
     (js ''| API | Method | Endpoint | Note |\<newline>|---|---|---|---|\<newline>| Pay | | /v1/pay | x |'')
     = [\<lparr> ep_api = js ''Pay'', ep_method = js ''/v1/pay'', ep_endpoint = js ''x'' \<rparr>]"
  by code_simp

text \<open>
  After a lone table line the state of \<open>extractTables\<close> is not reset (shown for
  \<open>extractTables\<close> below), and then the headers of the API table are not read as headers:
  nothing is returned for a fully populated row.
\<close>

lemma extractAPIEndpoints_after_single_line:
  "extractAPIEndpoints toLowerCaseLatin1
     (js ''| x |\<newline>text\<newline>| API | Method | Endpoint |\<newline>|---|---|---|\<newline>| Pay | POST | /v1/pay |'')
     = []"
  by code_simp

text \<open>
  C7. The state of \<open>extractTables\<close> is reset only when a run of at least two table lines
  ends; after a single table line it keeps \<open>inTable\<close> and the line. So the next table
  lines, however far away, are appended to it: here the lone line \<open>| x |\<close> becomes the
  header of the table that follows the text, the real header \<open>| h |\<close> is dropped as the
  separator, and the separator line \<open>|---|\<close> is the first row.
\<close>

theorem extractTables_keeps_single_line:
  "map (\<lambda>t. (headers t, map (\<lambda>row. map cell_content (cells row)) (rows t)))
       (extractTables (js ''| x |\<newline>text\<newline>| h |\<newline>|---|\<newline>| r |''))
     = [([js ''x''], [[js ''---''], [js ''r'']])]"
  by code_simp

lemma extractTables_two_single_lines:
  "map (\<lambda>t. (headers t, rows t)) (extractTables (js ''| a |\<newline>text\<newline>| b |''))
     = [([js ''a''], [])]"
  by code_simp

lemma extractTables_header_separator:
  "map (\<lambda>t. (headers t, rows t)) (extractTables (js ''| h1 | h2 |\<newline>|---|---|''))
     = [([js ''h1'', js ''h2''], [])]"
  by code_simp

lemma extractTables_header_only: "extractTables (js ''| h1 | h2 |'') = []"
  by code_simp

section \<open>The title group of the inline pattern never takes part in a match\<close>

lemma matches_mono: "(k, cq) \<in> set (matches inp r (i, cp)) \<Longrightarrow> i \<le> k"
proof (induction inp r "(i, cp)" arbitrary: i cp k cq rule: matches.induct)
  case (1 inp)
  then show ?case by (simp add: matches.simps)
next
  case (2 inp p i cp)
  from "2.prems" show ?case by (simp add: matches.simps split: if_splits)
next
  case (3 inp a b)
  from "3.prems" obtain j cj where 1: "(j, cj) \<in> set (matches inp a (i, cp))"
    and 2: "(k, cq) \<in> set (matches inp b (j, cj))"
    by (auto simp: matches.simps)
  from "3.hyps"(1) [OF 1] "3.hyps"(2) [OF 1 2] show ?case by simp
next
  case (4 inp a b)
  from "4.prems" have "(k, cq) \<in> set (matches inp a (i, cp)) \<or> (k, cq) \<in> set (matches inp b (i, cp))"
    by (simp add: matches.simps)
  then show ?case using "4.hyps" by blast
next
  case (5 inp a i cp)
  from "5.prems" have "(k, cq) \<in> set (matches inp a (i, cp)) \<or> (k, cq) = (i, cp)"
    by (auto simp: matches.simps)
  then show ?case using "5.hyps" by blast
next
  case (6 inp a i cp)
  have "(k, cq) \<in> set (concat (map (\<lambda>(j, cq). if i < j \<and> j \<le> length inp
                              then matches inp (Star a) (j, cq) else [])
                 (matches inp a (i, cp))) @ [(i, cp)])"
    using "6.prems" by (subst (asm) matches.simps(6))
  then have "(k, cq) = (i, cp) \<or>
     (\<exists>j cj. (j, cj) \<in> set (matches inp a (i, cp)) \<and> i < j \<and> j \<le> length inp \<and>
              (k, cq) \<in> set (matches inp (Star a) (j, cj)))"
    by (auto split: if_splits)
  then show ?case
  proof
    assume "(k, cq) = (i, cp)" then show ?thesis by simp
  next
    assume "\<exists>j cj. (j, cj) \<in> set (matches inp a (i, cp)) \<and> i < j \<and> j \<le> length inp \<and>
              (k, cq) \<in> set (matches inp (Star a) (j, cj))"
    then obtain j cj where 1: "(j, cj) \<in> set (matches inp a (i, cp))" and 2: "i < j \<and> j \<le> length inp"
      and 3: "(k, cq) \<in> set (matches inp (Star a) (j, cj))" by blast
    from "6.hyps"(2) [OF 1 refl 2 3] 2 show ?thesis by simp
  qed
next
  case (7 inp n a i cp)
  from "7.prems" obtain cq' where "(k, cq') \<in> set (matches inp a (i, cp))"
    by (auto simp: matches.simps)
  then show ?case using "7.hyps" by blast
next
  case (8 inp i cp)
  from "8.prems" show ?case by (simp add: matches.simps split: if_splits)
next
  case (9 inp i cp)
  from "9.prems" show ?case by (simp add: matches.simps split: if_splits)
qed

lemma matches_Star_Cls:
  "matches inp (Star (Cls p)) (i, cp) =
     map (\<lambda>j. (j, cp)) (rev [i ..< Suc (i + length (takeWhile p (drop i inp)))])"
proof (induction "length inp - i" arbitrary: i)
  case 0
  then have "drop i inp = []" by simp
  moreover have "matches inp (Cls p) (i, cp) = []"
    using 0 by (simp add: matches.simps)
  ultimately show ?case
    by (subst matches.simps) simp
next
  case (Suc n)
  then have lt: "i < length inp" by simp
  show ?case
  proof (cases "p (inp ! i)")
    case True
    have d: "drop i inp = inp ! i # drop (Suc i) inp"
      using lt by (simp add: Cons_nth_drop_Suc)
    have ih: "matches inp (Star (Cls p)) (Suc i, cp) =
                map (\<lambda>j. (j, cp)) (rev [Suc i ..< Suc (Suc i + length (takeWhile p (drop (Suc i) inp)))])"
      using Suc by (intro Suc.hyps(1)) simp
    have c: "matches inp (Cls p) (i, cp) = [(Suc i, cp)]"
      using lt True by (simp add: matches.simps)
    have "matches inp (Star (Cls p)) (i, cp) = matches inp (Star (Cls p)) (Suc i, cp) @ [(i, cp)]"
      using lt by (subst matches.simps) (simp add: c)
    also have "\<dots> = map (\<lambda>j. (j, cp)) (rev (i # [Suc i ..< Suc (Suc i + length (takeWhile p (drop (Suc i) inp)))]))"
      by (simp only: ih rev.simps map_append list.map)
    also have "i # [Suc i ..< Suc (Suc i + length (takeWhile p (drop (Suc i) inp)))]
                 = [i ..< Suc (Suc i + length (takeWhile p (drop (Suc i) inp)))]"
      by (rule upt_conv_Cons [symmetric]) simp
    also have "Suc i + length (takeWhile p (drop (Suc i) inp)) = i + length (takeWhile p (drop i inp))"
      using True by (simp add: d)
    finally show ?thesis .
  next
    case False
    have d: "drop i inp = inp ! i # drop (Suc i) inp"
      using lt by (simp add: Cons_nth_drop_Suc)
    have c: "matches inp (Cls p) (i, cp) = []"
      using False by (simp add: matches.simps)
    show ?thesis
      using False by (subst matches.simps) (simp add: c d)
  qed
qed

lemma matches_Plus_Cls:
  "matches inp (Plus (Cls p)) (i, cp) =
     (if i < length inp \<and> p (inp ! i)
      then map (\<lambda>j. (j, cp)) (rev [Suc i ..< Suc (i + length (takeWhile p (drop i inp)))])
      else [])"
proof (cases "i < length inp \<and> p (inp ! i)")
  case True
  then have d: "drop i inp = inp ! i # drop (Suc i) inp"
    by (simp add: Cons_nth_drop_Suc)
  have n: "Suc i + length (takeWhile p (drop (Suc i) inp)) = i + length (takeWhile p (drop i inp))"
    using True by (simp add: d)
  have "matches inp (Plus (Cls p)) (i, cp) = matches inp (Star (Cls p)) (Suc i, cp)"
    using True by (simp add: Plus_def matches.simps(2,3))
  then have "matches inp (Plus (Cls p)) (i, cp) =
      map (\<lambda>j. (j, cp)) (rev [Suc i ..< Suc (i + length (takeWhile p (drop i inp)))])"
    by (simp only: matches_Star_Cls n)
  then show ?thesis
    using True by simp
next
  case False
  then show ?thesis by (auto simp: Plus_def matches.simps(2,3))
qed

text \<open>The states a pattern can reach and the captures it sets.\<close>

lemma matches_Cls_caps: "(j, cq) \<in> set (matches inp (Cls p) (i, cp)) \<Longrightarrow> cq = cp"
  by (auto simp: matches.simps split: if_splits)

lemma matches_Grp_Plus_caps:
  "(j, cq) \<in> set (matches inp (Grp n (Plus (Cls p))) (i, cp)) \<Longrightarrow> n \<noteq> k \<Longrightarrow> cq k = cp k"
  by (auto simp: matches.simps(7) matches_Plus_Cls split: if_splits)

lemma titlePart_needs_space:
  "\<not> (j < length inp \<and> isSpace (inp ! j)) \<Longrightarrow> matches inp titlePart (j, c) = []"
proof -
  assume a: "\<not> (j < length inp \<and> isSpace (inp ! j))"
  have "matches inp (Plus (Cls isSpace)) (j, c) = []"
    by (subst matches_Plus_Cls) (use a in auto)
  then show ?thesis
    by (simp add: titlePart_def matches.simps(3) [of _ "Plus (Cls isSpace)"])
qed

text \<open>A list of states is fine when it is empty or its head has no third capture.\<close>

lemma concat_head:
  assumes "\<And>x. x \<in> set xs \<Longrightarrow> f x = [] \<or> Q (hd (f x))"
  shows "concat (map f xs) = [] \<or> Q (hd (concat (map f xs)))"
  using assms
proof (induction xs)
  case Nil
  show ?case by simp
next
  case (Cons x xs)
  show ?case
  proof (cases "f x")
    case Nil
    with Cons show ?thesis by simp
  next
    case (Cons y ys)
    with Cons.prems [of x] show ?thesis by simp
  qed
qed

lemma run_end:
  fixes inp :: jsstring and i :: nat and p :: "cu \<Rightarrow> bool"
  defines "m \<equiv> i + length (takeWhile p (drop i inp))"
  assumes "i < length inp"
  shows "m \<le> length inp" and "\<And>k. i \<le> k \<Longrightarrow> k < m \<Longrightarrow> p (inp ! k)"
    and "m < length inp \<Longrightarrow> \<not> p (inp ! m)"
proof -
  let ?d = "drop i inp"
  have l: "length (takeWhile p ?d) \<le> length ?d" by (rule length_takeWhile_le)
  then show "m \<le> length inp" using assms by simp
  show "p (inp ! k)" if "i \<le> k" "k < m" for k
  proof -
    have kk: "k - i < length (takeWhile p ?d)" using that by (simp add: m_def)
    then have "takeWhile p ?d ! (k - i) = ?d ! (k - i)" by (rule takeWhile_nth)
    moreover have "p (takeWhile p ?d ! (k - i))"
      using kk nth_mem [OF kk] set_takeWhileD by fastforce
    ultimately show ?thesis using that l kk by simp
  qed
  show "\<not> p (inp ! m)" if "m < length inp"
  proof -
    have "length (takeWhile p ?d) < length ?d" using that by (simp add: m_def)
    then have "\<not> p (?d ! length (takeWhile p ?d))" by (rule nth_length_takeWhile)
    then show ?thesis using that by (simp add: m_def)
  qed
qed

lemma linkTail_head:
  assumes cp3: "cp 3 = None"
  shows "matches inp linkTail (i, cp) = [] \<or> snd (hd (matches inp linkTail (i, cp))) 3 = None"
proof -
  define np where "np = (\<lambda>c::cu. c \<noteq> 0x29)"
  define rp where "rp = (\<lambda>c::cu. c = 0x29)"
  define CT where "CT = Cat (Opt titlePart) (Cls rp)"
  define G where "G = matches inp (Grp 2 (Plus (Cls np))) (i, cp)"
  have whole: "matches inp linkTail (i, cp) = concat (map (matches inp CT) G)"
    by (simp add: linkTail_def CT_def G_def np_def rp_def matches.simps(3))
  show ?thesis
  proof (cases "i < length inp \<and> np (inp ! i)")
    case False
    then have "G = []" unfolding G_def
      by (subst matches.simps(7), subst matches_Plus_Cls) auto
    then show ?thesis by (simp add: whole)
  next
    case True
    define m where "m = i + length (takeWhile np (drop i inp))"
    have lt: "i < length inp" using True by simp
    note re = run_end [where p = np, OF lt, folded m_def]
    have im: "i < m"
    proof -
      have "drop i inp = inp ! i # drop (Suc i) inp" using lt by (simp add: Cons_nth_drop_Suc)
      then show ?thesis using True by (simp add: m_def)
    qed
    have Gdef: "G = map (\<lambda>j. (j, cp(2 \<mapsto> slice_arr inp i j))) (rev [Suc i ..< Suc m])"
      unfolding G_def using True
      by (subst matches.simps(7), subst matches_Plus_Cls) (simp add: m_def comp_def)
    show ?thesis
    proof (cases "m < length inp")
      case True
      define c2 where "c2 = cp(2 \<mapsto> slice_arr inp i m)"
      have close: "inp ! m = 0x29" using re(3) [OF True] by (simp add: np_def)
      then have nsp: "\<not> (m < length inp \<and> isSpace (inp ! m))"
        by (simp add: isSpace_def)
      have opt: "matches inp (Opt titlePart) (m, c2) = [(m, c2)]"
        by (simp add: matches.simps(5) titlePart_needs_space [OF nsp])
      have cls: "matches inp (Cls rp) (m, c2) = [(Suc m, c2)]"
        using True close by (simp add: matches.simps(2) rp_def)
      have first: "matches inp CT (m, c2) = [(Suc m, c2)]"
        by (simp add: CT_def matches.simps(3) [of _ "Opt titlePart"] opt cls)
      have "rev [Suc i ..< Suc m] = m # rev [Suc i ..< m]" using im by simp
      then have "G = (m, c2) # map (\<lambda>j. (j, cp(2 \<mapsto> slice_arr inp i j))) (rev [Suc i ..< m])"
        by (simp add: Gdef c2_def)
      then have "hd (matches inp linkTail (i, cp)) = (Suc m, c2)"
        by (simp add: whole first)
      then show ?thesis using cp3 by (simp add: c2_def)
    next
      case False
      then have mlen: "m = length inp" using re(1) by simp
      have none: "matches inp CT (j, c) = []" if "i < j" for j c
      proof -
        have "matches inp (Cls rp) (k, cq) = []"
          if "(k, cq) \<in> set (matches inp (Opt titlePart) (j, c))" for k cq
        proof -
          have "j \<le> k" using that by (rule matches_mono)
          then have "k < length inp \<Longrightarrow> np (inp ! k)"
            using re(2) [of k] \<open>i < j\<close> mlen by simp
          then show ?thesis by (auto simp: matches.simps(2) rp_def np_def)
        qed
        then show ?thesis
          by (auto simp: CT_def matches.simps(3) [of _ "Opt titlePart"])
      qed
      have "matches inp CT x = []" if "x \<in> set G" for x
        using that none by (auto simp: Gdef)
      then show ?thesis by (simp add: whole)
    qed
  qed
qed

lemma Cat_head:
  assumes "\<And>j cq. (j, cq) \<in> set (matches inp a (i, cp)) \<Longrightarrow> cq 3 = None"
    and "\<And>j cq. cq 3 = None \<Longrightarrow>
           matches inp b (j, cq) = [] \<or> snd (hd (matches inp b (j, cq))) 3 = None"
  shows "matches inp (Cat a b) (i, cp) = [] \<or> snd (hd (matches inp (Cat a b) (i, cp))) 3 = None"
proof -
  have "concat (map (matches inp b) (matches inp a (i, cp))) = [] \<or>
        snd (hd (concat (map (matches inp b) (matches inp a (i, cp))))) 3 = None"
  proof (rule concat_head)
    fix x assume x: "x \<in> set (matches inp a (i, cp))"
    obtain j cq where jc: "x = (j, cq)" by (cases x)
    show "matches inp b x = [] \<or> snd (hd (matches inp b x)) 3 = None"
      unfolding jc using assms(1) [of j cq] x jc by (intro assms(2)) simp
  qed
  then show ?thesis by (simp add: matches.simps(3))
qed

lemma linkPattern_head:
  assumes "cp 3 = None"
  shows "matches inp linkPattern (i, cp) = [] \<or> snd (hd (matches inp linkPattern (i, cp))) 3 = None"
  unfolding linkPattern_def
proof (intro Cat_head)
  show "cq 3 = None" if "(j, cq) \<in> set (matches inp (Cls (\<lambda>c. c = 0x5B)) (i, cp))" for j cq
    using matches_Cls_caps [OF that] assms by simp
  show "cq' 3 = None"
    if "cq 3 = None" "(j', cq') \<in> set (matches inp (Grp 1 (Plus (Cls (\<lambda>c. c \<noteq> 0x5D)))) (j, cq))"
    for j cq j' cq'
    using matches_Grp_Plus_caps [OF that(2), of 3] that(1) by simp
  show "cq' 3 = None"
    if "cq 3 = None" "(j', cq') \<in> set (matches inp (Cls (\<lambda>c. c = 0x5D)) (j, cq))" for j cq j' cq'
    using matches_Cls_caps [OF that(2)] that(1) by simp
  show "cq' 3 = None"
    if "cq 3 = None" "(j', cq') \<in> set (matches inp (Cls (\<lambda>c. c = 0x28)) (j, cq))" for j cq j' cq'
    using matches_Cls_caps [OF that(2)] that(1) by simp
  show "matches inp linkTail (j, cq) = [] \<or> snd (hd (matches inp linkTail (j, cq))) 3 = None"
    if "cq 3 = None" for j cq
    using that by (rule linkTail_head)
qed

lemma firstMatch_no_title:
  "firstMatch linkPattern inp ss = Some (s, e, cp) \<Longrightarrow> cp 3 = None"
proof (induction ss)
  case Nil
  then show ?case by simp
next
  case (Cons x ss)
  show ?case
  proof (cases "matches inp linkPattern (x, Map.empty)")
    case Nil
    with Cons show ?thesis by simp
  next
    case (Cons st sts)
    then have "snd st 3 = None"
      using linkPattern_head [of Map.empty inp x] by simp
    with Cons Cons.prems show ?thesis by (cases st) auto
  qed
qed

lemma execAll_no_title:
  "execAll linkPattern inp from = Some ms \<Longrightarrow> (ms0, me0, cp) \<in> set ms \<Longrightarrow> cp 3 = None"
proof (induction linkPattern inp "from" arbitrary: ms rule: execAll.induct)
  case (1 inp "from")
  show ?case
  proof (cases "exec linkPattern inp from")
    case None
    with "1.prems" show ?thesis by (simp add: execAll.simps [of _ inp "from"])
  next
    case (Some m)
    obtain s e c where m: "m = (s, e, c)" by (cases m)
    have c3: "c 3 = None"
      using Some m firstMatch_no_title [of inp _ s e c] by (simp add: exec_def)
    from "1.prems"(1) Some m have lt: "from < e"
      by (simp add: execAll.simps [of _ inp "from"] split: if_splits)
    with "1.prems"(1) Some m obtain ms' where ms': "execAll linkPattern inp e = Some ms'"
      and ms: "ms = (s, e, c) # ms'"
      by (auto simp: execAll.simps [of _ inp "from"])
    from "1.prems"(2) ms have "cp = c \<or> (ms0, me0, cp) \<in> set ms'" by auto
    then show ?thesis
    proof
      assume "cp = c" with c3 show ?thesis by simp
    next
      assume "(ms0, me0, cp) \<in> set ms'"
      then show ?thesis using "1.hyps" [OF Some [unfolded m] refl refl lt ms'] by simp
    qed
  qed
qed

lemma referenceLoop_titles:
  "referenceLoop newRegExp src rs links = Inr out \<Longrightarrow>
     \<forall>l \<in> set links. link_title l = None \<Longrightarrow> \<forall>l \<in> set out. link_title l = None"
proof (induction rs arbitrary: links)
  case Nil
  then show ?case by simp
next
  case (Cons m0 rs)
  obtain rs0 re0 r where m0: "m0 = (rs0, re0, r)" by (cases m0)
  show ?case
  proof (cases "newRegExp (matched r 2)")
    case None
    with Cons.prems show ?thesis by (simp add: m0)
  next
    case (Some re)
    show ?thesis
    proof (cases "exec re src 0")
      case None
      with Cons Some show ?thesis by (simp add: m0)
    next
      case (Some m)
      obtain s e c where m: "m = (s, e, c)" by (cases m)
      let ?links = "links @ [\<lparr> link_text = matched r 1, link_url = matched c 1, link_title = None \<rparr>]"
      have "referenceLoop newRegExp src rs ?links = Inr out"
        using Cons.prems(1) \<open>newRegExp (matched r 2) = Some re\<close> Some m by (simp add: m0)
      moreover have "\<forall>l \<in> set ?links. link_title l = None"
        using Cons.prems(2) by simp
      ultimately show ?thesis by (rule Cons.IH)
    qed
  qed
qed

text \<open>
  Whatever the input and whatever \<open>new RegExp\<close> does: no link \<open>extractLinks\<close> returns has a
  title.
\<close>

lemma extractLinks_no_title:
  assumes "extractLinks newRegExp src = Some (Inr links)" and "l \<in> set links"
  shows "link_title l = None"
proof -
  from assms(1) obtain ms rs where ms: "execAll linkPattern src 0 = Some ms"
    and out: "referenceLoop newRegExp src rs (map (\<lambda>(s, e, cp). inlineLink cp) ms) = Inr links"
    by (auto simp: extractLinks_def split: option.splits)
  have "\<forall>l \<in> set (map (\<lambda>(s, e, cp). inlineLink cp) ms). link_title l = None"
    using execAll_no_title [OF ms] by (auto simp: inlineLink_def)
  with out have "\<forall>l \<in> set links. link_title l = None"
    by (rule referenceLoop_titles)
  with assms(2) show ?thesis by simp
qed

section \<open>The loops of extractLinks end\<close>

lemma firstMatch_Some:
  "firstMatch r inp ss = Some (s, e, cp) \<Longrightarrow> (e, cp) \<in> set (matches inp r (s, Map.empty))"
proof (induction ss)
  case Nil
  then show ?case by simp
next
  case (Cons x ss)
  then show ?case
    by (cases "matches inp r (x, Map.empty)") (auto split: prod.splits)
qed

lemma firstMatch_start: "firstMatch r inp ss = Some (s, e, c) \<Longrightarrow> s \<in> set ss"
  by (induction ss) (auto split: list.splits prod.splits)

lemma execAll_returns:
  assumes progress: "\<And>s k cq. (k, cq) \<in> set (matches inp r (s, Map.empty)) \<Longrightarrow> s < k"
  shows "\<exists>ms. execAll r inp from = Some ms"
proof (induction "Suc (length inp) - from" arbitrary: "from" rule: less_induct)
  case less
  show ?case
  proof (cases "exec r inp from")
    case None
    then show ?thesis by (simp add: execAll.simps [of r inp "from"])
  next
    case (Some m)
    obtain s e c where m: "m = (s, e, c)" by (cases m)
    have fm: "firstMatch r inp [from ..< Suc (length inp)] = Some (s, e, c)"
      using Some m by (simp only: exec_def)
    have "(e, c) \<in> set (matches inp r (s, Map.empty))"
      using fm by (rule firstMatch_Some)
    then have se: "s < e" by (rule progress)
    have "s \<in> set [from ..< Suc (length inp)]"
      using fm by (rule firstMatch_start)
    then have "from \<le> s" by (simp only: set_upt atLeastLessThan_iff)
    with se have lt: "from < e" by simp
    have "from \<le> length inp" using Some by (rule exec_Some_from)
    with lt have "Suc (length inp) - e < Suc (length inp) - from" by simp
    then obtain ms where "execAll r inp e = Some ms"
      using less by blast
    then show ?thesis
      using Some m lt by (simp add: execAll.simps [of r inp "from"])
  qed
qed

lemma Cat_Cls_progress:
  assumes "(k, cq) \<in> set (matches inp (Cat (Cls p) r) (s, cp))"
  shows "s < k"
proof -
  from assms obtain j cj where 1: "(j, cj) \<in> set (matches inp (Cls p) (s, cp))"
    and 2: "(k, cq) \<in> set (matches inp r (j, cj))"
    by (auto simp: matches.simps(3))
  from 1 have "j = Suc s" by (auto simp: matches.simps(2) split: if_splits)
  with matches_mono [OF 2] show ?thesis by simp
qed

lemma extractLinks_returns: "\<exists>res. extractLinks newRegExp src = Some res"
proof -
  obtain ms where ms: "execAll linkPattern src 0 = Some ms"
    using execAll_returns [of src linkPattern 0] Cat_Cls_progress
    unfolding linkPattern_def by blast
  obtain rs where rs: "execAll referenceLinkPattern src 0 = Some rs"
    using execAll_returns [of src referenceLinkPattern 0] Cat_Cls_progress
    unfolding referenceLinkPattern_def by blast
  show ?thesis by (simp add: extractLinks_def ms rs)
qed

section \<open>The scanners are the regular-expression methods\<close>

lemma exec_hit:
  assumes "from \<le> length inp" and "matches inp r (from, Map.empty) = (e, cp) # rest"
  shows "exec r inp from = Some (from, e, cp)"
proof -
  have "[from ..< Suc (length inp)] = from # [Suc from ..< Suc (length inp)]"
    using assms(1) by (intro upt_conv_Cons) simp
  then show ?thesis using assms(2) by (simp add: exec_def)
qed

lemma exec_skip:
  assumes "from \<le> length inp" and "matches inp r (from, Map.empty) = []"
  shows "exec r inp from = exec r inp (Suc from)"
proof -
  have "[from ..< Suc (length inp)] = from # [Suc from ..< Suc (length inp)]"
    using assms(1) by (intro upt_conv_Cons) simp
  then show ?thesis using assms(2) by (simp add: exec_def)
qed

lemma exec_past_end: "length inp < from \<Longrightarrow> exec r inp from = None"
  by (simp add: exec_def)

lemma execAll_hit:
  assumes "from \<le> length inp" and "matches inp r (from, Map.empty) = (e, cp) # rest" and "from < e"
  shows "execAll r inp from = map_option ((#) (from, e, cp)) (execAll r inp e)"
  using assms(3) by (subst execAll.simps) (simp add: exec_hit [OF assms(1,2)])

lemma exec_Some_bounds:
  assumes "exec r inp from = Some (s, e, cp)"
  shows "from \<le> s" and "(e, cp) \<in> set (matches inp r (s, Map.empty))"
proof -
  have fm: "firstMatch r inp [from ..< Suc (length inp)] = Some (s, e, cp)"
    using assms by (simp only: exec_def)
  have "s \<in> set [from ..< Suc (length inp)]" using fm by (rule firstMatch_start)
  then show "from \<le> s" by (simp only: set_upt atLeastLessThan_iff)
  show "(e, cp) \<in> set (matches inp r (s, Map.empty))" using fm by (rule firstMatch_Some)
qed

lemma execAll_skip:
  assumes progress: "\<And>s k cq. (k, cq) \<in> set (matches inp r (s, Map.empty)) \<Longrightarrow> s < k"
    and "from \<le> length inp" and "matches inp r (from, Map.empty) = []"
  shows "execAll r inp from = execAll r inp (Suc from)"
proof (cases "exec r inp (Suc from)")
  case None
  then show ?thesis
    using exec_skip [OF assms(2,3)]
    by (simp add: execAll.simps [of r inp "from"] execAll.simps [of r inp "Suc from"])
next
  case (Some m)
  obtain s e cp where m: "m = (s, e, cp)" by (cases m)
  have "Suc from \<le> s" "s < e"
    using exec_Some_bounds [OF Some [unfolded m]] progress by auto
  then show ?thesis
    using exec_skip [OF assms(2,3)] Some m
    by (simp add: execAll.simps [of r inp "from"] execAll.simps [of r inp "Suc from"])
qed

lemma execAll_at_end:
  assumes "matches inp r (length inp, Map.empty) = []"
  shows "execAll r inp (length inp) = Some []"
proof -
  have "exec r inp (length inp) = exec r inp (Suc (length inp))"
    using assms by (intro exec_skip) simp_all
  then have "exec r inp (length inp) = None" by (simp add: exec_past_end)
  then show ?thesis by (simp add: execAll.simps [of r inp "length inp"])
qed

lemma execAll_first_start:
  assumes "execAll r inp from = Some ms"
  shows "ms = [] \<or> from \<le> fst (hd ms)"
proof (cases "exec r inp from")
  case None
  with assms show ?thesis by (simp add: execAll.simps [of r inp "from"])
next
  case (Some m)
  obtain s e cp where m: "m = (s, e, cp)" by (cases m)
  have "from \<le> s" using exec_Some_bounds(1) [OF Some [unfolded m]] .
  moreover have "hd ms = (s, e, cp)"
    using assms Some m by (auto simp: execAll.simps [of r inp "from"] split: if_splits)
  ultimately show ?thesis by simp
qed

lemma replacePieces_skip:
  assumes "pos < length inp" and "ms = [] \<or> Suc pos \<le> fst (hd ms)"
  shows "replacePieces inp rep pos ms = inp ! pos # replacePieces inp rep (Suc pos) ms"
proof (cases ms)
  case Nil
  then show ?thesis using assms(1) by (simp add: Cons_nth_drop_Suc)
next
  case (Cons m ms')
  obtain s e cp where m: "m = (s, e, cp)" by (cases m)
  have "pos < s" using assms(2) Cons m by simp
  then have "slice_arr inp pos s = inp ! pos # slice_arr inp (Suc pos) s"
    using assms(1) by (intro slice_arr_Cons)
  then show ?thesis by (simp add: Cons m)
qed

lemma splitPieces_skip:
  assumes "pos < length inp" and "ms = [] \<or> Suc pos \<le> fst (hd ms)"
  shows "splitPieces inp pos ms =
           (inp ! pos # hd (splitPieces inp (Suc pos) ms)) # tl (splitPieces inp (Suc pos) ms)"
proof (cases ms)
  case Nil
  then show ?thesis using assms(1) by (simp add: Cons_nth_drop_Suc)
next
  case (Cons m ms')
  obtain s e cp where m: "m = (s, e, cp)" by (cases m)
  have "pos < s" using assms(2) Cons m by simp
  then have "slice_arr inp pos s = inp ! pos # slice_arr inp (Suc pos) s"
    using assms(1) by (intro slice_arr_Cons)
  then show ?thesis by (simp add: Cons m)
qed

lemma Plus_Cls_progress:
  "(k, cq) \<in> set (matches inp (Plus (Cls p)) (s, cp)) \<Longrightarrow> s < k"
  unfolding Plus_def by (rule Cat_Cls_progress)

lemma matches_Plus_Cls_hit:
  assumes "i < length inp" and "p (inp ! i)"
  shows "\<exists>rest. matches inp (Plus (Cls p)) (i, cp)
                  = (i + length (takeWhile p (drop i inp)), cp) # rest"
    and "0 < length (takeWhile p (drop i inp))"
proof -
  have d: "drop i inp = inp ! i # drop (Suc i) inp"
    using assms(1) by (simp add: Cons_nth_drop_Suc)
  show n: "0 < length (takeWhile p (drop i inp))" using assms(2) by (simp add: d)
  define m where "m = i + length (takeWhile p (drop i inp))"
  have "Suc i \<le> m" using n unfolding m_def by linarith
  then have "[Suc i ..< Suc m] = [Suc i ..< m] @ [m]" by simp
  then have "rev [Suc i ..< Suc m] = m # rev [Suc i ..< m]" by simp
  then show "\<exists>rest. matches inp (Plus (Cls p)) (i, cp)
                  = (i + length (takeWhile p (drop i inp)), cp) # rest"
    using assms by (simp add: matches_Plus_Cls m_def [symmetric])
qed

lemma matches_Plus_Cls_miss:
  "\<not> (i < length inp \<and> p (inp ! i)) \<Longrightarrow> matches inp (Plus (Cls p)) (i, cp) = []"
  by (subst matches_Plus_Cls) auto

lemma dropWhile_drop_run:
  assumes "i < length inp" and "p (inp ! i)"
  shows "dropWhile p (drop (Suc i) inp) = drop (i + length (takeWhile p (drop i inp))) inp"
    and "inp ! i # takeWhile p (drop (Suc i) inp) = slice_arr inp i (i + length (takeWhile p (drop i inp)))"
proof -
  have d: "drop i inp = inp ! i # drop (Suc i) inp"
    using assms(1) by (simp add: Cons_nth_drop_Suc)
  have "dropWhile p (drop (Suc i) inp)
          = drop (length (takeWhile p (drop (Suc i) inp))) (drop (Suc i) inp)"
    by (rule dropWhile_eq_drop)
  then show "dropWhile p (drop (Suc i) inp) = drop (i + length (takeWhile p (drop i inp))) inp"
    using assms(2) by (simp add: d add.commute)
  have "takeWhile p (drop i inp) = take (length (takeWhile p (drop i inp))) (drop i inp)"
    by (rule takeWhile_eq_take)
  then show "inp ! i # takeWhile p (drop (Suc i) inp)
               = slice_arr inp i (i + length (takeWhile p (drop i inp)))"
    using assms(2) by (simp add: d slice_arr_def)
qed

text \<open>\<open>s.replace(/[c]+/g, r)\<close> is \<open>replaceRuns\<close>.\<close>

lemma regexReplace_runs_from:
  "from \<le> length inp \<Longrightarrow>
     map_option (replacePieces inp rep from) (execAll (Plus (Cls p)) inp from)
       = Some (replaceRuns p rep (drop from inp))"
proof (induction "length inp - from" arbitrary: "from" rule: less_induct)
  case less
  let ?r = "Plus (Cls p)"
  show ?case
  proof (cases "from < length inp")
    case False
    then have e: "from = length inp" using less.prems by simp
    have "execAll ?r inp (length inp) = Some []"
      by (intro execAll_at_end matches_Plus_Cls_miss) simp
    then show ?thesis by (simp add: e)
  next
    case True
    have d: "drop from inp = inp ! from # drop (Suc from) inp"
      using True by (simp add: Cons_nth_drop_Suc)
    show ?thesis
    proof (cases "p (inp ! from)")
      case hit: True
      define e where "e = from + length (takeWhile p (drop from inp))"
      obtain rest where m: "matches inp ?r (from, Map.empty) = (e, Map.empty) # rest"
        using matches_Plus_Cls_hit(1) [where p = p and i = "from" and inp = inp, OF True hit]
        unfolding e_def by blast
      have lt: "from < e"
        using matches_Plus_Cls_hit(2) [where p = p and i = "from" and inp = inp, OF True hit]
        by (simp add: e_def)
      have le: "e \<le> length inp"
        unfolding e_def using run_end(1) [where p = p and i = "from" and inp = inp, OF True] .
      have ih: "map_option (replacePieces inp rep e) (execAll ?r inp e)
                  = Some (replaceRuns p rep (drop e inp))"
        using lt le True by (intro less.hyps) simp_all
      then obtain ms where ms: "execAll ?r inp e = Some ms"
        and pc: "replacePieces inp rep e ms = replaceRuns p rep (drop e inp)"
        by auto
      have "execAll ?r inp from = Some ((from, e, Map.empty) # ms)"
        using execAll_hit [OF less.prems m lt] ms by simp
      moreover have "replaceRuns p rep (drop from inp) = rep @ replaceRuns p rep (drop e inp)"
        using hit dropWhile_drop_run(1) [where p = p and i = "from" and inp = inp, OF True hit]
        by (simp add: d e_def)
      ultimately show ?thesis by (simp add: pc slice_arr_empty)
    next
      case miss: False
      have m: "matches inp ?r (from, Map.empty) = []"
        using miss by (intro matches_Plus_Cls_miss) simp
      have sk: "execAll ?r inp from = execAll ?r inp (Suc from)"
        using Plus_Cls_progress less.prems m by (intro execAll_skip) blast+
      have ih: "map_option (replacePieces inp rep (Suc from)) (execAll ?r inp (Suc from))
                  = Some (replaceRuns p rep (drop (Suc from) inp))"
        using True by (intro less.hyps) simp_all
      then obtain ms where ms: "execAll ?r inp (Suc from) = Some ms"
        and pc: "replacePieces inp rep (Suc from) ms = replaceRuns p rep (drop (Suc from) inp)"
        by auto
      have "replacePieces inp rep from ms = inp ! from # replacePieces inp rep (Suc from) ms"
        using True execAll_first_start [OF ms] by (intro replacePieces_skip)
      then show ?thesis using miss by (simp add: sk ms pc d)
    qed
  qed
qed

lemma regexReplace_runs: "regexReplace (Plus (Cls p)) rep inp = Some (replaceRuns p rep inp)"
  using regexReplace_runs_from [of 0 inp rep p] by (simp add: regexReplace_def)

text \<open>\<open>s.split(/[c]+/)\<close> is \<open>splitRuns\<close>.\<close>

lemma regexSplit_runs_from:
  "from \<le> length inp \<Longrightarrow>
     map_option (splitPieces inp from) (execAll (Plus (Cls p)) inp from)
       = Some (splitRuns p (drop from inp))"
proof (induction "length inp - from" arbitrary: "from" rule: less_induct)
  case less
  let ?r = "Plus (Cls p)"
  show ?case
  proof (cases "from < length inp")
    case False
    then have e: "from = length inp" using less.prems by simp
    have "execAll ?r inp (length inp) = Some []"
      by (intro execAll_at_end matches_Plus_Cls_miss) simp
    then show ?thesis by (simp add: e)
  next
    case True
    have d: "drop from inp = inp ! from # drop (Suc from) inp"
      using True by (simp add: Cons_nth_drop_Suc)
    show ?thesis
    proof (cases "p (inp ! from)")
      case hit: True
      define e where "e = from + length (takeWhile p (drop from inp))"
      obtain rest where m: "matches inp ?r (from, Map.empty) = (e, Map.empty) # rest"
        using matches_Plus_Cls_hit(1) [where p = p and i = "from" and inp = inp, OF True hit]
        unfolding e_def by blast
      have lt: "from < e"
        using matches_Plus_Cls_hit(2) [where p = p and i = "from" and inp = inp, OF True hit]
        by (simp add: e_def)
      have le: "e \<le> length inp"
        unfolding e_def using run_end(1) [where p = p and i = "from" and inp = inp, OF True] .
      have ih: "map_option (splitPieces inp e) (execAll ?r inp e) = Some (splitRuns p (drop e inp))"
        using lt le True by (intro less.hyps) simp_all
      then obtain ms where ms: "execAll ?r inp e = Some ms"
        and pc: "splitPieces inp e ms = splitRuns p (drop e inp)"
        by auto
      have "execAll ?r inp from = Some ((from, e, Map.empty) # ms)"
        using execAll_hit [OF less.prems m lt] ms by simp
      moreover have "splitRuns p (drop from inp) = [] # splitRuns p (drop e inp)"
        using hit dropWhile_drop_run(1) [where p = p and i = "from" and inp = inp, OF True hit]
        by (simp add: d e_def)
      ultimately show ?thesis by (simp add: pc slice_arr_empty)
    next
      case miss: False
      have m: "matches inp ?r (from, Map.empty) = []"
        using miss by (intro matches_Plus_Cls_miss) simp
      have sk: "execAll ?r inp from = execAll ?r inp (Suc from)"
        using Plus_Cls_progress less.prems m by (intro execAll_skip) blast+
      have ih: "map_option (splitPieces inp (Suc from)) (execAll ?r inp (Suc from))
                  = Some (splitRuns p (drop (Suc from) inp))"
        using True by (intro less.hyps) simp_all
      then obtain ms where ms: "execAll ?r inp (Suc from) = Some ms"
        and pc: "splitPieces inp (Suc from) ms = splitRuns p (drop (Suc from) inp)"
        by auto
      obtain w ws where w: "splitRuns p (drop (Suc from) inp) = w # ws"
        using splitRuns_not_Nil [of p "drop (Suc from) inp"]
        by (cases "splitRuns p (drop (Suc from) inp)") simp_all
      have "splitPieces inp from ms
              = (inp ! from # hd (splitPieces inp (Suc from) ms)) # tl (splitPieces inp (Suc from) ms)"
        using True execAll_first_start [OF ms] by (intro splitPieces_skip)
      then show ?thesis using miss by (simp add: sk ms pc d w)
    qed
  qed
qed

lemma regexSplit_runs: "regexSplit (Plus (Cls p)) inp = Some (splitRuns p inp)"
  using regexSplit_runs_from [of 0 inp p] by (simp add: regexSplit_def)

text \<open>\<open>s.replace(/[c]/g, '')\<close> keeps the code units that are not of the class.\<close>

lemma regexReplace_class_from:
  "from \<le> length inp \<Longrightarrow>
     map_option (replacePieces inp [] from) (execAll (Cls p) inp from)
       = Some (filter (\<lambda>c. \<not> p c) (drop from inp))"
proof (induction "length inp - from" arbitrary: "from" rule: less_induct)
  case less
  let ?r = "Cls p"
  have progress: "\<And>s k cq. (k, cq) \<in> set (matches inp ?r (s, Map.empty)) \<Longrightarrow> s < k"
    by (auto simp: matches.simps(2) split: if_splits)
  show ?case
  proof (cases "from < length inp")
    case False
    then have e: "from = length inp" using less.prems by simp
    have "execAll ?r inp (length inp) = Some []"
      by (intro execAll_at_end) (simp add: matches.simps(2))
    then show ?thesis by (simp add: e)
  next
    case True
    have d: "drop from inp = inp ! from # drop (Suc from) inp"
      using True by (simp add: Cons_nth_drop_Suc)
    have ih: "map_option (replacePieces inp [] (Suc from)) (execAll ?r inp (Suc from))
                = Some (filter (\<lambda>c. \<not> p c) (drop (Suc from) inp))"
      using True by (intro less.hyps) simp_all
    then obtain ms where ms: "execAll ?r inp (Suc from) = Some ms"
      and pc: "replacePieces inp [] (Suc from) ms = filter (\<lambda>c. \<not> p c) (drop (Suc from) inp)"
      by auto
    show ?thesis
    proof (cases "p (inp ! from)")
      case hit: True
      have m: "matches inp ?r (from, Map.empty) = (Suc from, Map.empty) # []"
        using True hit by (simp add: matches.simps(2))
      have "execAll ?r inp from = Some ((from, Suc from, Map.empty) # ms)"
        using execAll_hit [OF less.prems m] ms by simp
      then show ?thesis using hit by (simp add: pc d slice_arr_empty)
    next
      case miss: False
      have m: "matches inp ?r (from, Map.empty) = []"
        using miss by (simp add: matches.simps(2))
      have sk: "execAll ?r inp from = execAll ?r inp (Suc from)"
        using progress less.prems m by (intro execAll_skip) blast+
      have "replacePieces inp [] from ms = inp ! from # replacePieces inp [] (Suc from) ms"
        using True execAll_first_start [OF ms] by (intro replacePieces_skip)
      then show ?thesis using miss by (simp add: sk ms pc d)
    qed
  qed
qed

lemma regexReplace_class: "regexReplace (Cls p) [] inp = Some (filter (\<lambda>c. \<not> p c) inp)"
  using regexReplace_class_from [of 0 inp p] by (simp add: regexReplace_def)

text \<open>The keyword pattern with \<open>match\<close> is \<open>matchWords\<close>.\<close>

lemma takeWhile_two_classes:
  assumes "\<And>x. P x \<Longrightarrow> Q x"
  shows "length (takeWhile Q xs)
           = length (takeWhile P xs) + length (takeWhile Q (drop (length (takeWhile P xs)) xs))"
  using assms by (induction xs) auto

lemma run_slices:
  "takeWhile p (drop i inp) = slice_arr inp i (i + length (takeWhile p (drop i inp)))"
  "dropWhile p (drop i inp) = drop (i + length (takeWhile p (drop i inp))) inp"
proof -
  have "takeWhile p (drop i inp) = take (length (takeWhile p (drop i inp))) (drop i inp)"
    by (rule takeWhile_eq_take)
  then show "takeWhile p (drop i inp) = slice_arr inp i (i + length (takeWhile p (drop i inp)))"
    by (simp add: slice_arr_def)
  have "dropWhile p (drop i inp) = drop (length (takeWhile p (drop i inp))) (drop i inp)"
    by (rule dropWhile_eq_drop)
  then show "dropWhile p (drop i inp) = drop (i + length (takeWhile p (drop i inp))) inp"
    by (simp add: add.commute)
qed

lemma wordPattern_progress:
  assumes "(k, cq) \<in> set (matches inp wordPattern (s, cp))"
  shows "s < k"
proof -
  from assms have "(k, cq) \<in> set (matches inp (Plus (Cls isHangul)) (s, cp)) \<or>
      (k, cq) \<in> set (matches inp (Cat (Plus (Cls isLetter)) (Star (Cls isAlnum))) (s, cp))"
    by (simp add: wordPattern_def matches.simps(4))
  then show ?thesis
  proof
    assume "(k, cq) \<in> set (matches inp (Plus (Cls isHangul)) (s, cp))"
    then show ?thesis by (rule Plus_Cls_progress)
  next
    assume "(k, cq) \<in> set (matches inp (Cat (Plus (Cls isLetter)) (Star (Cls isAlnum))) (s, cp))"
    then obtain j cj where 1: "(j, cj) \<in> set (matches inp (Plus (Cls isLetter)) (s, cp))"
      and 2: "(k, cq) \<in> set (matches inp (Star (Cls isAlnum)) (j, cj))"
      by (auto simp: matches.simps(3))
    from Plus_Cls_progress [OF 1] matches_mono [OF 2] show ?thesis by simp
  qed
qed

lemma wordPattern_hangul:
  assumes "i < length inp" and "isHangul (inp ! i)"
  shows "\<exists>rest. matches inp wordPattern (i, cp)
                  = (i + length (takeWhile isHangul (drop i inp)), cp) # rest"
proof -
  obtain rest where "matches inp (Plus (Cls isHangul)) (i, cp)
                  = (i + length (takeWhile isHangul (drop i inp)), cp) # rest"
    using matches_Plus_Cls_hit(1) [where p = isHangul and i = i and inp = inp, OF assms] by blast
  then show ?thesis by (simp add: wordPattern_def matches.simps(4))
qed

lemma wordPattern_latin:
  assumes "i < length inp" and "\<not> isHangul (inp ! i)" and "isLetter (inp ! i)"
  shows "\<exists>rest. matches inp wordPattern (i, cp)
                  = (i + length (takeWhile isAlnum (drop i inp)), cp) # rest"
proof -
  define nL where "nL = length (takeWhile isLetter (drop i inp))"
  define nA where "nA = length (takeWhile isAlnum (drop (i + nL) inp))"
  have h: "matches inp (Plus (Cls isHangul)) (i, cp) = []"
    using assms(2) by (intro matches_Plus_Cls_miss) simp
  obtain rest where l: "matches inp (Plus (Cls isLetter)) (i, cp) = (i + nL, cp) # rest"
    using matches_Plus_Cls_hit(1) [where p = isLetter and i = i and inp = inp, OF assms(1,3)]
    unfolding nL_def by blast
  have "rev [i + nL ..< Suc (i + nL + nA)] = (i + nL + nA) # rev [i + nL ..< i + nL + nA]"
    by simp
  then have s: "matches inp (Star (Cls isAlnum)) (i + nL, cp)
                  = (i + nL + nA, cp) # map (\<lambda>j. (j, cp)) (rev [i + nL ..< i + nL + nA])"
    by (simp add: matches_Star_Cls nA_def)
  have n: "length (takeWhile isAlnum (drop i inp)) = nL + nA"
    using takeWhile_two_classes [of isLetter isAlnum "drop i inp"] letter_alnum
    by (simp add: nL_def nA_def add.commute)
  have "matches inp (Cat (Plus (Cls isLetter)) (Star (Cls isAlnum))) (i, cp)
          = (i + nL + nA, cp) # map (\<lambda>j. (j, cp)) (rev [i + nL ..< i + nL + nA])
            @ concat (map (matches inp (Star (Cls isAlnum))) rest)"
    by (simp add: matches.simps(3) [of _ "Plus (Cls isLetter)"] l s)
  then show ?thesis
    by (simp add: wordPattern_def matches.simps(4) h n add.assoc)
qed

lemma wordPattern_miss:
  assumes "\<not> (i < length inp \<and> (isHangul (inp ! i) \<or> isLetter (inp ! i)))"
  shows "matches inp wordPattern (i, cp) = []"
proof -
  have h: "matches inp (Plus (Cls isHangul)) (i, cp) = []"
    using assms by (intro matches_Plus_Cls_miss) auto
  have l: "matches inp (Plus (Cls isLetter)) (i, cp) = []"
    using assms by (intro matches_Plus_Cls_miss) auto
  show ?thesis
    by (simp add: wordPattern_def matches.simps(4) matches.simps(3) [of _ "Plus (Cls isLetter)"] h l)
qed

lemma regexMatch_words_from:
  "from \<le> length inp \<Longrightarrow>
     map_option (map (\<lambda>(s, e, cp). slice_arr inp s e)) (execAll wordPattern inp from)
       = Some (matchWords (drop from inp))"
proof (induction "length inp - from" arbitrary: "from" rule: less_induct)
  case less
  let ?f = "\<lambda>(s, e, cp). slice_arr inp s (e :: nat)"
  show ?case
  proof (cases "from < length inp")
    case False
    then have e: "from = length inp" using less.prems by simp
    have "execAll wordPattern inp (length inp) = Some []"
      by (intro execAll_at_end wordPattern_miss) simp
    then show ?thesis by (simp add: e)
  next
    case True
    have d: "drop from inp = inp ! from # drop (Suc from) inp"
      using True by (simp add: Cons_nth_drop_Suc)
    consider (h) "isHangul (inp ! from)"
      | (l) "\<not> isHangul (inp ! from)" "isLetter (inp ! from)"
      | (o) "\<not> isHangul (inp ! from)" "\<not> isLetter (inp ! from)"
      by blast
    then show ?thesis
    proof cases
      case h
      define e where "e = from + length (takeWhile isHangul (drop from inp))"
      obtain rest where m: "matches inp wordPattern (from, Map.empty) = (e, Map.empty) # rest"
        using wordPattern_hangul [OF True h] unfolding e_def by blast
      have lt: "from < e"
        using matches_Plus_Cls_hit(2) [where p = isHangul and i = "from" and inp = inp, OF True h]
        by (simp add: e_def)
      have le: "e \<le> length inp"
        unfolding e_def using run_end(1) [where p = isHangul and i = "from" and inp = inp, OF True] .
      have ih: "map_option (map ?f) (execAll wordPattern inp e) = Some (matchWords (drop e inp))"
        using lt le True by (intro less.hyps) simp_all
      then obtain ms where ms: "execAll wordPattern inp e = Some ms"
        and pc: "map ?f ms = matchWords (drop e inp)"
        by auto
      have "execAll wordPattern inp from = Some ((from, e, Map.empty) # ms)"
        using execAll_hit [OF less.prems m lt] ms by simp
      moreover have "matchWords (drop from inp) = slice_arr inp from e # matchWords (drop e inp)"
      proof -
        have "matchWords (drop from inp)
                = takeWhile isHangul (drop from inp) # matchWords (dropWhile isHangul (drop from inp))"
          using h by (simp add: d)
        then show ?thesis
          by (simp only: run_slices [where p = isHangul and i = "from" and inp = inp, folded e_def])
      qed
      ultimately show ?thesis by (simp add: pc)
    next
      case l
      have a: "isAlnum (inp ! from)" using l(2) by (rule letter_alnum)
      define e where "e = from + length (takeWhile isAlnum (drop from inp))"
      obtain rest where m: "matches inp wordPattern (from, Map.empty) = (e, Map.empty) # rest"
        using wordPattern_latin [OF True l] unfolding e_def by blast
      have lt: "from < e"
        using matches_Plus_Cls_hit(2) [where p = isAlnum and i = "from" and inp = inp, OF True a]
        by (simp add: e_def)
      have le: "e \<le> length inp"
        unfolding e_def using run_end(1) [where p = isAlnum and i = "from" and inp = inp, OF True] .
      have ih: "map_option (map ?f) (execAll wordPattern inp e) = Some (matchWords (drop e inp))"
        using lt le True by (intro less.hyps) simp_all
      then obtain ms where ms: "execAll wordPattern inp e = Some ms"
        and pc: "map ?f ms = matchWords (drop e inp)"
        by auto
      have "execAll wordPattern inp from = Some ((from, e, Map.empty) # ms)"
        using execAll_hit [OF less.prems m lt] ms by simp
      moreover have "matchWords (drop from inp) = slice_arr inp from e # matchWords (drop e inp)"
      proof -
        have "matchWords (drop from inp)
                = takeWhile isAlnum (drop from inp) # matchWords (dropWhile isAlnum (drop from inp))"
          using l a by (simp add: d)
        then show ?thesis
          by (simp only: run_slices [where p = isAlnum and i = "from" and inp = inp, folded e_def])
      qed
      ultimately show ?thesis by (simp add: pc)
    next
      case o
      have m: "matches inp wordPattern (from, Map.empty) = []"
        using o by (intro wordPattern_miss) simp
      have sk: "execAll wordPattern inp from = execAll wordPattern inp (Suc from)"
        using wordPattern_progress less.prems m by (intro execAll_skip) blast+
      have ih: "map_option (map ?f) (execAll wordPattern inp (Suc from))
                  = Some (matchWords (drop (Suc from) inp))"
        using True by (intro less.hyps) simp_all
      then show ?thesis using o by (simp add: sk d)
    qed
  qed
qed

lemma regexMatch_words: "regexMatch wordPattern inp = Some (matchWords inp)"
  using regexMatch_words_from [of 0 inp] by (simp add: regexMatch_def)

text \<open>
  \<open>generateAnchor\<close> and the two token lists of \<open>extractKeywords\<close>, written with the
  regular-expression methods as the source does, are the functions of the model.
\<close>

lemma generateAnchor_regex:
  "Option.bind (regexReplace (Cls (\<lambda>c. \<not> anchorKeeps c)) [] (toLowerCase t)) (\<lambda>a.
   Option.bind (regexReplace (Plus (Cls isSpace)) [HYPHEN] a) (\<lambda>b.
   Option.bind (regexReplace (Plus (Cls isHyphen)) [HYPHEN] b) (\<lambda>c.
   Some (trim c))))
     = Some (generateAnchor toLowerCase t)"
  by (simp add: regexReplace_class regexReplace_runs generateAnchor_def)

lemma titleWords_regex:
  "map_option (filter (\<lambda>w. 1 < length w)) (regexSplit (Plus (Cls isSpace)) t) = Some (titleWords t)"
  by (simp add: regexSplit_runs titleWords_def)

lemma contentWords_regex:
  "map_option (\<lambda>ws. take 50 (filter (\<lambda>w. 2 < length w) ws)) (regexMatch wordPattern c)
     = Some (contentWords c)"
  by (simp add: regexMatch_words contentWords_def)

section \<open>Properties of extractLinks\<close>

text \<open>
  C5. In the inline pattern the group for the URL, \<^verbatim>\<open>([^)]+)\<close>, is greedy and
  takes every code unit up to the closing parenthesis, the space and the quoted title
  included; the optional title group then matches nothing and the match succeeds without
  backtracking. For \<^verbatim>\<open>[a](u "t")\<close> the link returned has the URL \<^verbatim>\<open>u "t"\<close> and no
  title, whatever the \<open>RegExp\<close> constructor does.
\<close>

theorem extractLinks_title_in_url:
  "extractLinks newRegExp titledLink =
     Some (Inr [\<lparr> link_text = js ''a'',
                  link_url = js ''u '' @ [DQUOTE] @ js ''t'' @ [DQUOTE],
                  link_title = None \<rparr>])"
  by code_simp

lemma extractLinks_plain:
  "extractLinks newRegExp plainLink =
     Some (Inr [\<lparr> link_text = js ''a'', link_url = js ''u'', link_title = None \<rparr>])"
  by code_simp

section \<open>Properties of buildIndex\<close>

lemma indexTargets_no_root:
  "indexTargets toLowerCase join basename [] b ds idx = (Completed, idx)"
  by (induction ds) simp_all

text \<open>A target directory that exists and cannot be listed makes the traversal throw.\<close>

lemma indexTargets_throws:
  assumes "dir \<in> set ds" and "map_of root dir = Some (Dir None)"
  shows "fst (indexTargets toLowerCase join basename root b ds idx) = Threw ReaddirError"
  using assms(1)
proof (induction ds arbitrary: idx)
  case Nil
  then show ?case by simp
next
  case (Cons x ds)
  show ?case
  proof (cases "x = dir")
    case True
    then show ?thesis using assms(2) by simp
  next
    case False
    with Cons.prems have mem: "dir \<in> set ds" by simp
    note IH = Cons.IH [OF mem]
    show ?thesis
    proof (cases "map_of root x")
      case None
      then show ?thesis using IH by simp
    next
      case (Some node)
      show ?thesis
      proof (cases node)
        case (File c)
        then show ?thesis using Some IH by simp
      next
        case Other
        then show ?thesis using Some IH by simp
      next
        case (Dir dd)
        obtain o1 idx1 where r:
          "indexDirectory toLowerCase join basename (Dir dd) (join b x) x idx = (o1, idx1)"
          by (cases "indexDirectory toLowerCase join basename (Dir dd) (join b x) x idx")
        show ?thesis
        proof (cases o1)
          case Completed
          then show ?thesis using Some Dir r IH [of idx1] by simp
        next
          case (Threw e)
          have "e = ReaddirError" by (cases e) simp
          then show ?thesis using Some Dir r Threw by simp
        qed
      qed
    qed
  qed
qed

text \<open>
  C3 as stated fails: the index is not left in its prior state. The build of
  \<open>unlistableTree\<close>, started with the two documents of the example index, throws at the
  directory \<open>api\<close>, out of \<open>buildIndex\<close>; the caller catches the exception, and the index
  is empty, not the two documents of before.
\<close>

theorem buildIndex_counterexample:
  "map fst exampleIndex = [js ''api/pay.md'', js ''README.md''] \<and>
   buildIndex toLowerCaseLatin1 posixJoin posixBasename (js ''/docs'') unlistableTree exampleIndex
     = (Threw ReaddirError, []) \<and>
   initializeIndexer toLowerCaseLatin1 posixJoin posixBasename (js ''/docs'') unlistableTree exampleIndex
     = (Completed, [])"
  by code_simp

text \<open>
  C3, amended. \<open>buildIndex\<close> clears the index first, so its outcome and the index it
  leaves are those of a first build, whatever the index held before: the prior state is
  never kept. A target directory that exists and cannot be listed makes the traversal
  throw, and the exception leaves \<open>buildIndex\<close>; when no document was inserted before it
  (the directory is the first target) the index is left empty. The caller
  \<open>initializeIndexer\<close> catches the exception: none leaves the caller, and the index stays
  as \<open>buildIndex\<close> left it. A base path with no reachable entry is no failure: the build
  completes with an empty index.
\<close>

theorem buildIndex_failure:
  "buildIndex toLowerCase join basename b root idx = buildIndex toLowerCase join basename b root [] \<and>
   (dir \<in> set targetDirs \<and> map_of root dir = Some (Dir None) \<longrightarrow>
      fst (buildIndex toLowerCase join basename b root idx) = Threw ReaddirError) \<and>
   (map_of root (hd targetDirs) = Some (Dir None) \<longrightarrow>
      buildIndex toLowerCase join basename b root idx = (Threw ReaddirError, [])) \<and>
   fst (initializeIndexer toLowerCase join basename b root idx) = Completed \<and>
   snd (initializeIndexer toLowerCase join basename b root idx)
     = snd (buildIndex toLowerCase join basename b root idx) \<and>
   buildIndex toLowerCase join basename b [] idx = (Completed, [])"
proof -
  have 1: "buildIndex toLowerCase join basename b root idx
             = buildIndex toLowerCase join basename b root []"
    by (simp add: buildIndex_def)
  have 2: "fst (buildIndex toLowerCase join basename b root idx) = Threw ReaddirError"
    if "dir \<in> set targetDirs \<and> map_of root dir = Some (Dir None)"
  proof -
    have "fst (indexTargets toLowerCase join basename root b targetDirs []) = Threw ReaddirError"
      using that by (intro indexTargets_throws [where dir = dir]) simp_all
    moreover obtain o1 i1 where
      r: "indexTargets toLowerCase join basename root b targetDirs [] = (o1, i1)"
      by (cases "indexTargets toLowerCase join basename root b targetDirs []")
    ultimately have "o1 = Threw ReaddirError" by simp
    then show ?thesis using r by (simp add: buildIndex_def)
  qed
  have 3: "buildIndex toLowerCase join basename b root idx = (Threw ReaddirError, [])"
    if "map_of root (hd targetDirs) = Some (Dir None)"
  proof -
    have "indexTargets toLowerCase join basename root b targetDirs [] = (Threw ReaddirError, [])"
      using that unfolding targetDirs_def by simp
    then show ?thesis by (simp add: buildIndex_def)
  qed
  have 4: "fst (initializeIndexer toLowerCase join basename b root idx) = Completed \<and>
           snd (initializeIndexer toLowerCase join basename b root idx)
             = snd (buildIndex toLowerCase join basename b root idx)"
    by (simp add: initializeIndexer_def split: prod.splits outcome.splits)
  have 5: "buildIndex toLowerCase join basename b [] idx = (Completed, [])"
    by (simp add: buildIndex_def indexTargets_no_root)
  show ?thesis
    using 1 2 3 4 5 by (intro conjI impI) simp_all
qed

theorem buildIndex_failure_witness:
  "js ''common'' \<in> set targetDirs \<and> map_of brokenTree (js ''common'') = Some (Dir None) \<and>
   fst (buildIndex toLowerCaseLatin1 posixJoin posixBasename (js ''/docs'') brokenTree exampleIndex)
     = Threw ReaddirError \<and>
   map_of unlistableTree (hd targetDirs) = Some (Dir None) \<and>
   buildIndex toLowerCaseLatin1 posixJoin posixBasename (js ''/docs'') unlistableTree exampleIndex
     = (Threw ReaddirError, []) \<and>
   initializeIndexer toLowerCaseLatin1 posixJoin posixBasename (js ''/docs'') unlistableTree exampleIndex
     = (Completed, [])"
proof -
  have c: "js ''common'' \<in> set targetDirs" by (simp add: targetDirs_def)
  have m: "map_of brokenTree (js ''common'') = Some (Dir None)" by code_simp
  have u: "map_of unlistableTree (hd targetDirs) = Some (Dir None)" by code_simp
  note B = buildIndex_failure [where toLowerCase = toLowerCaseLatin1 and join = posixJoin
        and basename = posixBasename and b = "js ''/docs''" and root = brokenTree
        and idx = exampleIndex and dir = "js ''common''"]
  note U = buildIndex_failure [where toLowerCase = toLowerCaseLatin1 and join = posixJoin
        and basename = posixBasename and b = "js ''/docs''" and root = unlistableTree
        and idx = exampleIndex and dir = "js ''api''"]
  have t: "fst (buildIndex toLowerCaseLatin1 posixJoin posixBasename (js ''/docs'') brokenTree exampleIndex)
             = Threw ReaddirError"
    using B c m by blast
  have e: "buildIndex toLowerCaseLatin1 posixJoin posixBasename (js ''/docs'') unlistableTree exampleIndex
             = (Threw ReaddirError, [])"
    using U u by blast
  have f: "fst (initializeIndexer toLowerCaseLatin1 posixJoin posixBasename (js ''/docs'') unlistableTree exampleIndex) = Completed"
    and s: "snd (initializeIndexer toLowerCaseLatin1 posixJoin posixBasename (js ''/docs'') unlistableTree exampleIndex)
             = snd (buildIndex toLowerCaseLatin1 posixJoin posixBasename (js ''/docs'') unlistableTree exampleIndex)"
    using U by blast+
  have i: "initializeIndexer toLowerCaseLatin1 posixJoin posixBasename (js ''/docs'') unlistableTree exampleIndex
             = (Completed, [])"
    using f s e by (simp add: prod_eq_iff)
  show ?thesis
    using c m t u e i by (intro conjI)
qed

text \<open>
  The comment in the \<open>catch\<close> of \<open>initializeIndexer\<close> says that after a failed build the
  server goes on with an empty index. It does when the build fails before the first
  insertion, as above. On the first build of \<open>brokenTree\<close>, which fails at its second
  target directory, the index is not empty: it keeps the document of the first. The file
  of that document is \<open>/docs/api/pay.md\<close>, its key \<open>api/pay.md\<close>.
\<close>

lemma initializeIndexer_first_build_not_empty:
  "map (\<lambda>(k, d). (k, absolutePath d, fileName d))
       (snd (initializeIndexer toLowerCaseLatin1 posixJoin posixBasename (js ''/docs'') brokenTree []))
     = [(js ''api/pay.md'', js ''/docs/api/pay.md'', js ''pay.md'')]"
  by code_simp

lemma posixJoin_normalises:
  "posixJoin (js ''/docs/'') (js ''api'') = js ''/docs/api'' \<and>
   posixJoin (js ''docs/./x/..'') (js ''README.md'') = js ''docs/README.md'' \<and>
   posixJoin (js ''..'') (js ''../a/'') = js ''../../a/'' \<and>
   posixBasename (js ''/docs/api/pay.md'') = js ''pay.md''"
  by code_simp
end
